theory Spec2Isabelle
  imports Complex_Main "HOL-Library.Word" "HOL-Library.Multiset"
begin

section \<open>FileScope: a shallow embedding of main.go\<close>

text \<open>
  The program walks a directory tree, keeps the files whose size reaches a floor, and
  prints ranked and grouped views of them. The embedding follows main.go function by
  function. What the Go standard library decides (the order in which \<open>sort.Slice\<close> leaves
  equal keys, the order in which \<open>range\<close> enumerates a map, \<open>strings.ToLower\<close>,
  \<open>filepath.Dir\<close>, the clock and the calendar) is passed in as a parameter, constrained
  by the library's documented contract only. The algorithm of \<open>sort.Slice\<close> is embedded as
  well, to run the program on a directory of thirteen files.
\<close>

subsection \<open>Data model\<close>

text \<open>
  \<open>int64\<close> is a 64-bit word read as two's complement; additions wrap as Go's do.
  Go's \<open>int\<close> holds counts and flags here; a count never exceeds the length of a slice, so
  it is an unbounded \<open>int\<close>. A \<open>time.Time\<close> without monotonic reading is the number of
  nanoseconds since the zero instant (January 1, year 1, 00:00:00 UTC): \<open>IsZero\<close> is
  equality with 0, \<open>Before\<close> is \<open><\<close>.
\<close>

type_synonym int64 = "64 word"
type_synonym Time = int

definition IsZero :: "Time \<Rightarrow> bool" where
  "IsZero t \<longleftrightarrow> t = 0"

definition Before :: "Time \<Rightarrow> Time \<Rightarrow> bool" where
  "Before t u \<longleftrightarrow> t < u"

record FileInfo =
  Path :: string
  Size :: int64
  Ext :: string
  LastUsed :: Time

text \<open>
  A Go map is an association list with distinct keys; a key that is absent reads as the
  zero value, as \<open>m[k]\<close> does in Go. The order of the list carries no meaning: \<open>range\<close>
  is a separate enumeration (see \<open>printSortedMap\<close>).
\<close>

type_synonym ('k, 'v) gomap = "('k \<times> 'v) list"

fun map_get :: "('k, 'v::zero) gomap \<Rightarrow> 'k \<Rightarrow> 'v" where
  "map_get [] k = 0"
| "map_get ((k', x) # m) k = (if k' = k then x else map_get m k)"

text \<open>\<open>m[k] += v\<close> (and \<open>m[k]++\<close> with \<open>v = 1\<close>).\<close>

fun map_incr :: "('k, 'v::monoid_add) gomap \<Rightarrow> 'k \<Rightarrow> 'v \<Rightarrow> ('k, 'v) gomap" where
  "map_incr [] k v = [(k, 0 + v)]"
| "map_incr ((k', x) # m) k v = (if k' = k then (k', x + v) # m else (k', x) # map_incr m k v)"

record AnalysisResults =
  TotalFiles :: int
  TotalSize :: int64
  LargestFiles :: "FileInfo list"
  FilesByExtension :: "(string, int) gomap"
  SizeByExtension :: "(string, int64) gomap"
  OldestFiles :: "FileInfo list"
  DirectorySizes :: "(string, int64) gomap"

subsection \<open>Library functions used by the collector\<close>

text \<open>
  \<open>filepath.Ext\<close> scans the path from its end, stops at a path separator (\<open>/\<close>; the
  Unix build) and returns the suffix that starts at the final dot of the last element,
  the dot included, or the empty string.
\<close>

fun ext_scan :: "string \<Rightarrow> string \<Rightarrow> string" where
  "ext_scan [] suffix = []"
| "ext_scan (c # front) suffix =
     (if c = CHR ''/'' then []
      else if c = CHR ''.'' then c # suffix
      else ext_scan front (c # suffix))"

definition filepath_Ext :: "string \<Rightarrow> string" where
  "filepath_Ext path = ext_scan (rev path) []"

text \<open>
  \<open>strings.ToLower\<close> maps every Unicode letter of a string to its lower case. The tables
  of Unicode are not part of the embedding: \<open>strings.ToLower\<close> is a parameter of the
  collector, and two facts of the library are stated about it. It drops no character, so
  only the empty string has an empty result; and on a string of ASCII bytes it moves the
  letters A to Z to a to z and leaves every other byte as it is. A string is a list of
  bytes, as in Go; a byte is ASCII when its highest bit is clear.
\<close>

definition lower_char :: "char \<Rightarrow> char" where
  "lower_char c =
     (case map_of (zip ''ABCDEFGHIJKLMNOPQRSTUVWXYZ'' ''abcdefghijklmnopqrstuvwxyz'') c of
        Some l \<Rightarrow> l
      | None \<Rightarrow> c)"

definition ascii :: "string \<Rightarrow> bool" where
  "ascii s \<longleftrightarrow> list_all (\<lambda>c. \<not> digit7 c) s"

definition ToLower_contract :: "(string \<Rightarrow> string) \<Rightarrow> bool" where
  "ToLower_contract strings_ToLower \<longleftrightarrow>
     (\<forall>s. strings_ToLower s = [] \<longleftrightarrow> s = []) \<and>
     (\<forall>s. ascii s \<longrightarrow> strings_ToLower s = map lower_char s)"

subsection \<open>The collector: the callback of main and the walk\<close>

text \<open>
  One call of the callback by \<open>filepath.WalkDir\<close>: the path, the error argument, and
  what the directory entry answers when asked (\<open>d.IsDir()\<close>, \<open>d.Info()\<close>). \<open>v_probe\<close>
  is what \<open>os.Open(info.Name())\<close> followed by \<open>file.Stat()\<close> gives at that moment.
\<close>

record FileStat =
  st_Name :: string
  st_Size :: int64
  st_ModTime :: Time

datatype open_result = OpenError | StatError | Opened FileStat

record visit =
  v_path :: string
  v_err :: "string option"
  v_IsDir :: bool
  v_Info :: "string + FileStat"
  v_probe :: open_result

fun getAccessTime :: "open_result \<Rightarrow> Time" where
  "getAccessTime OpenError = 0"
| "getAccessTime StatError = 0"
| "getAccessTime (Opened fileInfo) = st_ModTime fileInfo"

text \<open>The variables the callback closes over, and the lines printed so far.\<close>

record walk_state =
  ws_files :: "FileInfo list"
  ws_totalSize :: int64
  ws_directorySizes :: "(string, int64) gomap"
  ws_out :: "string list"

definition walk_init :: walk_state where
  "walk_init = \<lparr>ws_files = [], ws_totalSize = 0, ws_directorySizes = [], ws_out = []\<rparr>"

text \<open>Lines 76 to 79: the key of a path.\<close>

definition fileExt :: "(string \<Rightarrow> string) \<Rightarrow> string \<Rightarrow> string" where
  "fileExt strings_ToLower path =
     (let ext = strings_ToLower (filepath_Ext path)
      in if ext = [] then ''no_extension'' else ext)"

text \<open>
  The callback (main.go, lines 55 to 101), with the two library functions it calls on
  the path. It returns the error it hands back to the walk together with the new state;
  every path of the source returns \<open>nil\<close>.
\<close>

definition walkFn ::
  "(string \<Rightarrow> string) \<Rightarrow> (string \<Rightarrow> string) \<Rightarrow> int64 \<Rightarrow> visit \<Rightarrow> walk_state \<Rightarrow>
   string option \<times> walk_state" where
  "walkFn strings_ToLower filepath_Dir minSize v s =
     (case v_err v of
        Some err \<Rightarrow>
          (None, s\<lparr>ws_out := ws_out s @ [''Error accessing '' @ v_path v @ '': '' @ err]\<rparr>)
      | None \<Rightarrow>
          if v_IsDir v then (None, s)
          else (case v_Info v of
              Inl err \<Rightarrow>
                (None, s\<lparr>ws_out := ws_out s @
                   [''Error getting info for '' @ v_path v @ '': '' @ err]\<rparr>)
            | Inr info \<Rightarrow>
                if st_Size info <s minSize then (None, s)
                else
                  let ext = fileExt strings_ToLower (v_path v);
                      fileData = \<lparr>Path = v_path v, Size = st_Size info, Ext = ext,
                                  LastUsed = st_ModTime info\<rparr>;
                      atime = getAccessTime (v_probe v);
                      fileData = (if \<not> IsZero atime then fileData\<lparr>LastUsed := atime\<rparr>
                                  else fileData);
                      dir = filepath_Dir (v_path v)
                  in (None, s\<lparr>ws_files := ws_files s @ [fileData],
                               ws_totalSize := ws_totalSize s + st_Size info,
                               ws_directorySizes :=
                                 map_incr (ws_directorySizes s) dir (st_Size info)\<rparr>)))"

text \<open>
  \<open>filepath.WalkDir\<close> calls the function once per entry (and once more for an entry
  that cannot be read: the root that \<open>Lstat\<close> rejects, a directory that cannot be
  listed), stops at the first call that returns an error and returns that error. The
  list holds the calls the walk makes as long as none returns an error.
\<close>

fun WalkDir ::
  "visit list \<Rightarrow> (visit \<Rightarrow> 's \<Rightarrow> string option \<times> 's) \<Rightarrow> 's \<Rightarrow> string option \<times> 's" where
  "WalkDir [] fn s = (None, s)"
| "WalkDir (v # vs) fn s =
     (case fn v s of
        (Some err, s') \<Rightarrow> (Some err, s')
      | (None, s') \<Rightarrow> WalkDir vs fn s')"

subsection \<open>Library functions used by the reporter: decimal text and binary64\<close>

text \<open>\<open>%d\<close> of \<open>fmt.Sprintf\<close>: decimal digits, a minus sign for a negative number.\<close>

definition digit_char :: "nat \<Rightarrow> char" where
  "digit_char n = ''0123456789'' ! n"

fun showNat :: "nat \<Rightarrow> string" where
  "showNat n = (if n < 10 then [digit_char n] else showNat (n div 10) @ [digit_char (n mod 10)])"

declare showNat.simps [simp del]

definition showInt :: "int \<Rightarrow> string" where
  "showInt i = (if i < 0 then CHR ''-'' # showNat (nat (- i)) else showNat (nat i))"

text \<open>
  A finite, non-negative \<open>float64\<close> is kept as a fraction \<open>(n, d)\<close> of naturals whose
  value is \<open>n / d\<close>. \<open>fl\<close> rounds an exact fraction to the nearest value with a 53-bit
  significand, ties to the even significand, as IEEE 754 binary64 arithmetic does after
  every operation. The values that occur lie between \<open>2\<^sup>-\<^sup>4\<^sup>2\<close> and \<open>2\<^sup>6\<^sup>4\<close> (or are 0), so
  neither subnormal numbers nor infinities arise.
\<close>

type_synonym float64 = "nat \<times> nat"

text \<open>Division of naturals rounded to the nearest integer, ties to even.\<close>

definition rhe_div :: "nat \<Rightarrow> nat \<Rightarrow> nat" where
  "rhe_div a b =
     (let q = a div b; r = a mod b
      in if 2 * r < b then q
         else if b < 2 * r then q + 1
         else if even q then q else q + 1)"

text \<open>The least power of two \<open>p\<close> (from the given one on) with \<open>n < 2\<^sup>5\<^sup>3 d p\<close>.\<close>

function shift_down :: "nat \<Rightarrow> nat \<Rightarrow> nat \<Rightarrow> nat" where
  "shift_down n d p =
     (if 0 < d \<and> 0 < p \<and> 2 ^ 53 * d * p \<le> n then shift_down n d (2 * p) else p)"
  by pat_completeness auto
termination
proof (relation "measure (\<lambda>(n, d, p). n + 1 - 2 ^ 53 * d * p)", goal_cases)
  case 1
  show ?case by simp
next
  case (2 n d p)
  define k where "k = d * p"
  from 2 have "0 < k" and "2 ^ 53 * k \<le> n"
    by (simp_all add: k_def mult.assoc)
  then have "n + 1 - 2 ^ 53 * (2 * k) < n + 1 - 2 ^ 53 * k"
    by simp
  then show ?case
    by (simp add: k_def mult.assoc)
qed

declare shift_down.simps [simp del]

text \<open>The least power of two \<open>p\<close> (from the given one on) with \<open>2\<^sup>5\<^sup>2 d \<le> n p\<close>.\<close>

function shift_up :: "nat \<Rightarrow> nat \<Rightarrow> nat \<Rightarrow> nat" where
  "shift_up n d p =
     (if 0 < n \<and> 0 < p \<and> n * p < 2 ^ 52 * d then shift_up n d (2 * p) else p)"
  by pat_completeness auto
termination
proof (relation "measure (\<lambda>(n, d, p). 2 ^ 52 * d - n * p)", goal_cases)
  case 1
  show ?case by simp
next
  case (2 n d p)
  define k where "k = n * p"
  from 2 have "0 < k" and "k < 2 ^ 52 * d"
    by (simp_all add: k_def)
  then have "2 ^ 52 * d - 2 * k < 2 ^ 52 * d - k"
    by simp
  then show ?case
    by (simp add: k_def mult.assoc mult.left_commute)
qed

declare shift_up.simps [simp del]

definition fl :: "nat \<Rightarrow> nat \<Rightarrow> float64" where
  "fl n d =
     (if n = 0 then (0, 1)
      else if 2 ^ 53 * d \<le> n then (let p = shift_down n d 1 in (rhe_div n (d * p) * p, 1))
      else (let p = shift_up n d 1 in (rhe_div (n * p) d, p)))"

text \<open>\<open>float64(x)\<close> of a non-negative integer, \<open>x / y\<close> and \<open>x + y\<close> on \<open>float64\<close>.\<close>

definition float64_of :: "int \<Rightarrow> float64" where
  "float64_of i = fl (nat i) 1"

definition fdiv :: "float64 \<Rightarrow> float64 \<Rightarrow> float64" where
  "fdiv x y = (case (x, y) of ((n1, d1), (n2, d2)) \<Rightarrow> fl (n1 * d2) (d1 * n2))"

definition fadd :: "float64 \<Rightarrow> float64 \<Rightarrow> float64" where
  "fadd x y = (case (x, y) of ((n1, d1), (n2, d2)) \<Rightarrow> fl (n1 * d2 + n2 * d1) (d1 * d2))"

text \<open>
  \<open>%.0f\<close> and \<open>%.1f\<close> of \<open>fmt.Sprintf\<close>: the exact decimal expansion of the binary value,
  rounded to the requested number of decimals, ties to even (\<open>strconv\<close> formats a
  fixed precision from the exact digits).
\<close>

definition fmt_f0 :: "float64 \<Rightarrow> string" where
  "fmt_f0 x = (case x of (n, d) \<Rightarrow> showNat (rhe_div n d))"

definition fmt_f1 :: "float64 \<Rightarrow> string" where
  "fmt_f1 x =
     (case x of (n, d) \<Rightarrow>
        let tenths = rhe_div (10 * n) d
        in showNat (tenths div 10) @ ''.'' @ showNat (tenths mod 10))"

subsection \<open>formatSize\<close>

text \<open>
  The loop \<open>for n := size / unit; n >= unit; n /= unit { div *= unit; exp++ }\<close>. It runs on
  a positive \<open>int64\<close>, where Go's \<open>/\<close> is \<open>div\<close>; \<open>div\<close> ends at most at \<open>2\<^sup>6\<^sup>0\<close> and \<open>exp\<close>
  below 6 (lemma \<open>sizeLoop_int64\<close>), so the multiplication never wraps and the index
  into \<open>"KMGTPE"\<close> is always in range.
\<close>

function sizeLoop :: "int \<Rightarrow> int \<Rightarrow> nat \<Rightarrow> int \<times> nat" where
  "sizeLoop n dv expo =
     (if 1024 \<le> n then sizeLoop (n div 1024) (dv * 1024) (expo + 1) else (dv, expo))"
  by pat_completeness auto
termination
  by (relation "measure (\<lambda>(n, dv, expo). nat n)") auto

declare sizeLoop.simps [simp del]

definition formatSize :: "int64 \<Rightarrow> string" where
  "formatSize sz =
     (if sint sz < 1024 then showInt (sint sz) @ '' B''
      else
        let (dv, expo) = sizeLoop (sint sz div 1024) 1024 0
        in fmt_f1 (fdiv (float64_of (sint sz)) (float64_of dv))
           @ '' '' @ [''KMGTPE'' ! expo] @ ''iB'')"

subsection \<open>formatTime\<close>

text \<open>
  A \<open>time.Duration\<close> is a count of nanoseconds in an \<open>int64\<close>. \<open>Time.Sub\<close> gives the
  difference of two instants, or the largest or smallest \<open>Duration\<close> when the difference
  does not fit.
\<close>

type_synonym Duration = int

definition maxDuration :: Duration where
  "maxDuration = 2 ^ 63 - 1"

definition minDuration :: Duration where
  "minDuration = - (2 ^ 63)"

definition Sub :: "Time \<Rightarrow> Time \<Rightarrow> Duration" where
  "Sub t u =
     (if maxDuration < t - u then maxDuration
      else if t - u < minDuration then minDuration
      else t - u)"

definition Minute :: Duration where
  "Minute = 60000000000"

definition Hour :: Duration where
  "Hour = 3600000000000"

text \<open>
  \<open>Duration.Minutes\<close> and \<open>Duration.Hours\<close> of the \<open>time\<close> package:
  \<open>float64(d / Unit) + float64(d % Unit) / Unit\<close>. \<open>formatTime\<close> calls them on durations
  of at least one minute, where Go's truncating \<open>/\<close> and \<open>%\<close> are \<open>div\<close> and \<open>mod\<close>.
\<close>

definition Minutes :: "Duration \<Rightarrow> float64" where
  "Minutes d =
     (let min = d div Minute; nsec = d mod Minute
      in fadd (float64_of min) (fdiv (float64_of nsec) (float64_of 60000000000)))"

definition Hours :: "Duration \<Rightarrow> float64" where
  "Hours d =
     (let hour = d div Hour; nsec = d mod Hour
      in fadd (float64_of hour) (fdiv (float64_of nsec) (float64_of 3600000000000)))"

text \<open>
  \<open>time.Now()\<close> is the next reading of a clock: \<open>clk c\<close> is the reading number \<open>c\<close> of
  the run. \<open>formatTime\<close> returns its text and the number of the next reading; a zero time
  returns before the clock is read.
\<close>

definition formatTime :: "(nat \<Rightarrow> Time) \<Rightarrow> nat \<Rightarrow> Time \<Rightarrow> string \<times> nat" where
  "formatTime clk c t =
     (if IsZero t then (''unknown'', c)
      else
        let now = clk c; diff = Sub now t
        in ((if diff < Minute then ''just now''
             else if diff < Hour then fmt_f0 (Minutes diff) @ '' minutes ago''
             else if diff < 24 * Hour then fmt_f0 (Hours diff) @ '' hours ago''
             else if diff < 30 * 24 * Hour then
               fmt_f0 (fdiv (Hours diff) (float64_of 24)) @ '' days ago''
             else if diff < 365 * 24 * Hour then
               fmt_f0 (fdiv (fdiv (Hours diff) (float64_of 24)) (float64_of 30)) @ '' months ago''
             else
               fmt_f0 (fdiv (fdiv (Hours diff) (float64_of 24)) (float64_of 365)) @ '' years ago''),
            Suc c))"

subsection \<open>The contracts of \<open>sort.Slice\<close> and of \<open>range\<close> over a map\<close>

text \<open>
  \<open>sort.Slice\<close> sorts a slice by a \<open>less\<close> function that is a strict weak ordering. Its
  documentation promises a sorted permutation and states that the sort is not stable:
  equal elements may be reversed from their original order. The algorithm has changed
  between releases of Go, so the general statements fix no algorithm: there \<open>sort.Slice\<close>
  is any function that meets \<open>sort_Slice_contract\<close>. The algorithm of the current
  releases follows below, as \<open>Slice\<close>.
\<close>

definition strict_weak_order :: "('a \<Rightarrow> 'a \<Rightarrow> bool) \<Rightarrow> bool" where
  "strict_weak_order lessFn \<longleftrightarrow>
     (\<forall>a. \<not> lessFn a a) \<and>
     (\<forall>a b c. lessFn a b \<and> lessFn b c \<longrightarrow> lessFn a c) \<and>
     (\<forall>a b c. \<not> lessFn a b \<and> \<not> lessFn b c \<longrightarrow> \<not> lessFn a c)"

definition sort_Slice_contract :: "(('a \<Rightarrow> 'a \<Rightarrow> bool) \<Rightarrow> 'a list \<Rightarrow> 'a list) \<Rightarrow> bool" where
  "sort_Slice_contract srt \<longleftrightarrow>
     (\<forall>lessFn xs. strict_weak_order lessFn \<longrightarrow>
        mset (srt lessFn xs) = mset xs \<and> sorted_wrt (\<lambda>a b. \<not> lessFn b a) (srt lessFn xs))"

text \<open>
  \<open>for k, v := range m\<close> visits every entry of the map once, in an order that Go leaves
  unspecified and varies from one run to the next.
\<close>

definition range_contract :: "(('k, 'v) gomap \<Rightarrow> ('k \<times> 'v) list) \<Rightarrow> bool" where
  "range_contract rng \<longleftrightarrow> (\<forall>m. mset (rng m) = mset m)"

subsection \<open>\<open>sort.Slice\<close> as the library implements it\<close>

text \<open>
  The algorithm of \<open>sort.Slice\<close> since Go 1.19 (package \<open>sort\<close>, files slice.go, sort.go
  and zsortfunc.go): a pattern-defeating quicksort of \<open>data[a:b]\<close>, which sorts a range
  of at most 12 elements by insertion. The slice is a list; \<open>data.Less(i, j)\<close> is the
  \<open>less\<close> function on the elements at \<open>i\<close> and \<open>j\<close>, and \<open>data.Swap(i, j)\<close> exchanges them.
  An index is a position of the slice: a Go \<open>int\<close> that is never negative here, so a
  natural number. Every loop is a recursive function of the variables of the loop; the
  two loops of \<open>heapSort_func\<close>, which count down to 0, are folds over their indices.
\<close>

definition Less :: "('a \<Rightarrow> 'a \<Rightarrow> bool) \<Rightarrow> 'a list \<Rightarrow> nat \<Rightarrow> nat \<Rightarrow> bool" where
  "Less lessFn xs i j \<longleftrightarrow> lessFn (xs ! i) (xs ! j)"

definition Swap :: "'a list \<Rightarrow> nat \<Rightarrow> nat \<Rightarrow> 'a list" where
  "Swap xs i j = xs[i := xs ! j, j := xs ! i]"

text \<open>
  \<open>insertionSort_func\<close>: the inner loop \<open>for j := i; j > a && data.Less(j, j-1); j--\<close>
  and the outer loop \<open>for i := a + 1; i < b; i++\<close>.
\<close>

function insertionSort_inner ::
  "('a \<Rightarrow> 'a \<Rightarrow> bool) \<Rightarrow> 'a list \<Rightarrow> nat \<Rightarrow> nat \<Rightarrow> 'a list" where
  "insertionSort_inner lessFn xs a j =
     (if a < j \<and> Less lessFn xs j (j - 1)
      then insertionSort_inner lessFn (Swap xs j (j - 1)) a (j - 1)
      else xs)"
  by pat_completeness auto
termination
  by (relation "measure (\<lambda>(lessFn, xs, a, j). j)") auto

declare insertionSort_inner.simps [simp del]

function insertionSort_outer ::
  "('a \<Rightarrow> 'a \<Rightarrow> bool) \<Rightarrow> 'a list \<Rightarrow> nat \<Rightarrow> nat \<Rightarrow> nat \<Rightarrow> 'a list" where
  "insertionSort_outer lessFn xs a b i =
     (if i < b
      then insertionSort_outer lessFn (insertionSort_inner lessFn xs a i) a b (i + 1)
      else xs)"
  by pat_completeness auto
termination
  by (relation "measure (\<lambda>(lessFn, xs, a, b, i). b - i)") auto

declare insertionSort_outer.simps [simp del]

definition insertionSort_func :: "('a \<Rightarrow> 'a \<Rightarrow> bool) \<Rightarrow> 'a list \<Rightarrow> nat \<Rightarrow> nat \<Rightarrow> 'a list" where
  "insertionSort_func lessFn xs a b = insertionSort_outer lessFn xs a b (a + 1)"

text \<open>\<open>siftDown_func\<close> and \<open>heapSort_func\<close>; the variable \<open>root\<close> of the loop is \<open>lo\<close>.\<close>

function siftDown_func ::
  "('a \<Rightarrow> 'a \<Rightarrow> bool) \<Rightarrow> 'a list \<Rightarrow> nat \<Rightarrow> nat \<Rightarrow> nat \<Rightarrow> 'a list" where
  "siftDown_func lessFn xs lo hi first =
     (let child = 2 * lo + 1
      in if hi \<le> child then xs
         else
           let child = (if child + 1 < hi \<and> Less lessFn xs (first + child) (first + child + 1)
                        then child + 1 else child)
           in if \<not> Less lessFn xs (first + lo) (first + child) then xs
              else siftDown_func lessFn (Swap xs (first + lo) (first + child)) child hi first)"
  by pat_completeness auto
termination
  by (relation "measure (\<lambda>(lessFn, xs, lo, hi, first). hi - lo)") (auto split: if_splits)

declare siftDown_func.simps [simp del]

definition heapSort_func :: "('a \<Rightarrow> 'a \<Rightarrow> bool) \<Rightarrow> 'a list \<Rightarrow> nat \<Rightarrow> nat \<Rightarrow> 'a list" where
  "heapSort_func lessFn xs a b =
     (let first = a; lo = 0; hi = b - a;
          xs = fold (\<lambda>i xs. siftDown_func lessFn xs i hi first) (rev [0 ..< (hi - 1) div 2 + 1]) xs
      in fold (\<lambda>i xs. siftDown_func lessFn (Swap xs first (first + i)) lo i first)
           (rev [0 ..< hi]) xs)"

text \<open>
  The two scans of a partition: \<open>for i <= j && P(i) { i++ }\<close> and
  \<open>for i <= j && Q(j) { j-- }\<close>. The second runs with \<open>i\<close> at least 1, so \<open>j\<close> stops
  at 0 at the latest.
\<close>

function scanUp :: "(nat \<Rightarrow> bool) \<Rightarrow> nat \<Rightarrow> nat \<Rightarrow> nat" where
  "scanUp P i j = (if i \<le> j \<and> P i then scanUp P (i + 1) j else i)"
  by pat_completeness auto
termination
  by (relation "measure (\<lambda>(P, i, j). Suc j - i)") auto

declare scanUp.simps [simp del]

fun scanDown :: "(nat \<Rightarrow> bool) \<Rightarrow> nat \<Rightarrow> nat \<Rightarrow> nat" where
  "scanDown Q i 0 = 0"
| "scanDown Q i (Suc j) = (if i \<le> Suc j \<and> Q (Suc j) then scanDown Q i j else Suc j)"

text \<open>
  \<open>partition_func\<close>: the pivot goes to \<open>a\<close>, the elements less than it to the left. It
  returns the slice, the new place of the pivot, and whether the slice was already
  partitioned. \<open>partition_loop\<close> is the \<open>for\<close> loop of its second half.
\<close>

function partition_loop ::
  "('a \<Rightarrow> 'a \<Rightarrow> bool) \<Rightarrow> 'a list \<Rightarrow> nat \<Rightarrow> nat \<Rightarrow> nat \<Rightarrow> 'a list \<times> nat" where
  "partition_loop lessFn xs a i j =
     (let i = scanUp (\<lambda>i. Less lessFn xs i a) i j;
          j = scanDown (\<lambda>j. \<not> Less lessFn xs j a) i j
      in if j < i then (xs, j)
         else partition_loop lessFn (Swap xs i j) a (i + 1) (j - 1))"
  by pat_completeness auto
termination
proof (relation "measure (\<lambda>(lessFn, xs, a, i, j). Suc j - i)", goal_cases)
  case 1
  show ?case by simp
next
  case (2 lessFn xs a i j i' j')
  have "i \<le> scanUp P i j" for P
    by (induction P i j rule: scanUp.induct) (subst scanUp.simps, auto dest: Suc_leD)
  with 2 have "i \<le> i'"
    by simp
  moreover have "scanDown Q i' j \<le> j" for Q
    by (induction j) simp_all
  with 2 have "j' \<le> j"
    by simp
  moreover from 2 have "i' \<le> j'"
    by simp
  ultimately show ?case
    by simp
qed

declare partition_loop.simps [simp del]

definition partition_func ::
  "('a \<Rightarrow> 'a \<Rightarrow> bool) \<Rightarrow> 'a list \<Rightarrow> nat \<Rightarrow> nat \<Rightarrow> nat \<Rightarrow> 'a list \<times> nat \<times> bool" where
  "partition_func lessFn xs a b pivot =
     (let xs = Swap xs a pivot;
          i = scanUp (\<lambda>i. Less lessFn xs i a) (a + 1) (b - 1);
          j = scanDown (\<lambda>j. \<not> Less lessFn xs j a) i (b - 1)
      in if j < i then (Swap xs j a, j, True)
         else
           let (xs, j) = partition_loop lessFn (Swap xs i j) a (i + 1) (j - 1)
           in (Swap xs j a, j, False))"

text \<open>
  \<open>partitionEqual_func\<close>: the elements equal to the pivot go to the left; it returns the
  slice and the index of the first element greater than the pivot.
\<close>

function partitionEqual_loop ::
  "('a \<Rightarrow> 'a \<Rightarrow> bool) \<Rightarrow> 'a list \<Rightarrow> nat \<Rightarrow> nat \<Rightarrow> nat \<Rightarrow> 'a list \<times> nat" where
  "partitionEqual_loop lessFn xs a i j =
     (let i = scanUp (\<lambda>i. \<not> Less lessFn xs a i) i j;
          j = scanDown (\<lambda>j. Less lessFn xs a j) i j
      in if j < i then (xs, i)
         else partitionEqual_loop lessFn (Swap xs i j) a (i + 1) (j - 1))"
  by pat_completeness auto
termination
proof (relation "measure (\<lambda>(lessFn, xs, a, i, j). Suc j - i)", goal_cases)
  case 1
  show ?case by simp
next
  case (2 lessFn xs a i j i' j')
  have "i \<le> scanUp P i j" for P
    by (induction P i j rule: scanUp.induct) (subst scanUp.simps, auto dest: Suc_leD)
  with 2 have "i \<le> i'"
    by simp
  moreover have "scanDown Q i' j \<le> j" for Q
    by (induction j) simp_all
  with 2 have "j' \<le> j"
    by simp
  moreover from 2 have "i' \<le> j'"
    by simp
  ultimately show ?case
    by simp
qed

declare partitionEqual_loop.simps [simp del]

definition partitionEqual_func ::
  "('a \<Rightarrow> 'a \<Rightarrow> bool) \<Rightarrow> 'a list \<Rightarrow> nat \<Rightarrow> nat \<Rightarrow> nat \<Rightarrow> 'a list \<times> nat" where
  "partitionEqual_func lessFn xs a b pivot =
     partitionEqual_loop lessFn (Swap xs a pivot) a (a + 1) (b - 1)"

text \<open>
  \<open>partialInsertionSort_func\<close>: at most five rounds, each finds the next pair out of
  order and, on a slice of at least 50 elements, shifts its elements into place. It
  returns the slice and whether it is sorted. \<open>shiftLeft\<close> is the loop
  \<open>for j := i - 1; j >= 1; j--\<close> and \<open>shiftRight\<close> the loop \<open>for j := i + 1; j < b; j++\<close>,
  both with \<open>if !data.Less(j, j-1) { break }\<close> and \<open>data.Swap(j, j-1)\<close>.
\<close>

function shiftLeft :: "('a \<Rightarrow> 'a \<Rightarrow> bool) \<Rightarrow> 'a list \<Rightarrow> nat \<Rightarrow> 'a list" where
  "shiftLeft lessFn xs j =
     (if 1 \<le> j then
        (if \<not> Less lessFn xs j (j - 1) then xs
         else shiftLeft lessFn (Swap xs j (j - 1)) (j - 1))
      else xs)"
  by pat_completeness auto
termination
  by (relation "measure (\<lambda>(lessFn, xs, j). j)") auto

declare shiftLeft.simps [simp del]

function shiftRight :: "('a \<Rightarrow> 'a \<Rightarrow> bool) \<Rightarrow> 'a list \<Rightarrow> nat \<Rightarrow> nat \<Rightarrow> 'a list" where
  "shiftRight lessFn xs b j =
     (if j < b then
        (if \<not> Less lessFn xs j (j - 1) then xs
         else shiftRight lessFn (Swap xs j (j - 1)) b (j + 1))
      else xs)"
  by pat_completeness auto
termination
  by (relation "measure (\<lambda>(lessFn, xs, b, j). b - j)") auto

declare shiftRight.simps [simp del]

function partialInsertionSort_loop ::
  "('a \<Rightarrow> 'a \<Rightarrow> bool) \<Rightarrow> 'a list \<Rightarrow> nat \<Rightarrow> nat \<Rightarrow> nat \<Rightarrow> nat \<Rightarrow> 'a list \<times> bool" where
  "partialInsertionSort_loop lessFn xs a b i j =
     (if j < 5 then
        let i = scanUp (\<lambda>i. i < b \<and> \<not> Less lessFn xs i (i - 1)) i b
        in if i = b then (xs, True)
           else if b - a < 50 then (xs, False)
           else
             let xs = Swap xs i (i - 1);
                 xs = (if 2 \<le> i - a then shiftLeft lessFn xs (i - 1) else xs);
                 xs = (if 2 \<le> b - i then shiftRight lessFn xs b (i + 1) else xs)
             in partialInsertionSort_loop lessFn xs a b i (j + 1)
      else (xs, False))"
  by pat_completeness auto
termination
  by (relation "measure (\<lambda>(lessFn, xs, a, b, i, j). 5 - j)") auto

declare partialInsertionSort_loop.simps [simp del]

definition partialInsertionSort_func ::
  "('a \<Rightarrow> 'a \<Rightarrow> bool) \<Rightarrow> 'a list \<Rightarrow> nat \<Rightarrow> nat \<Rightarrow> 'a list \<times> bool" where
  "partialInsertionSort_func lessFn xs a b = partialInsertionSort_loop lessFn xs a b (a + 1) 0"

text \<open>
  \<open>breakPatterns_func\<close> exchanges three elements around the middle with elements at
  positions drawn from a xorshift generator that starts from the length of the slice.
  The step of the generator (\<open>Next\<close>, which maps the 64-bit state to the following state
  and returns it) is the parameter \<open>xorshift_Next\<close> of the algorithm: no statement below
  depends on the positions drawn. \<open>bits_Len\<close> is \<open>bits.Len\<close>, the number of bits of a
  number.
\<close>

fun bits_Len :: "nat \<Rightarrow> nat" where
  "bits_Len n = (if n = 0 then 0 else bits_Len (n div 2) + 1)"

declare bits_Len.simps [simp del]

definition nextPowerOfTwo :: "nat \<Rightarrow> 64 word" where
  "nextPowerOfTwo n = push_bit (bits_Len n) 1"

definition breakPatterns_func ::
  "(64 word \<Rightarrow> 64 word) \<Rightarrow> 'a list \<Rightarrow> nat \<Rightarrow> nat \<Rightarrow> 'a list" where
  "breakPatterns_func xorshift_Next xs a b =
     (let n = b - a
      in if 8 \<le> n then
           let modulus = nextPowerOfTwo n;
               idx = a + (n div 4) * 2 - 1
           in snd (fold
                (\<lambda>i (rnd, xs).
                   let rnd = xorshift_Next rnd;
                       other = unat (and rnd (modulus - 1));
                       other = (if n \<le> other then other - n else other)
                   in (rnd, Swap xs (idx - 1 + i) (a + other)))
                [0 ..< 3] (word_of_nat n, xs))
         else xs)"

text \<open>
  \<open>choosePivot_func\<close>: a static pivot below 8 elements, the median of three below 50,
  Tukey's ninther from 50 on; the hint tells whether the samples were in increasing or
  in decreasing order.
\<close>

datatype sortedHint = unknownHint | increasingHint | decreasingHint

definition order2_func ::
  "('a \<Rightarrow> 'a \<Rightarrow> bool) \<Rightarrow> 'a list \<Rightarrow> nat \<Rightarrow> nat \<Rightarrow> nat \<Rightarrow> nat \<times> nat \<times> nat" where
  "order2_func lessFn xs a b swaps =
     (if Less lessFn xs b a then (b, a, swaps + 1) else (a, b, swaps))"

definition median_func ::
  "('a \<Rightarrow> 'a \<Rightarrow> bool) \<Rightarrow> 'a list \<Rightarrow> nat \<Rightarrow> nat \<Rightarrow> nat \<Rightarrow> nat \<Rightarrow> nat \<times> nat" where
  "median_func lessFn xs a b c swaps =
     (let (a, b, swaps) = order2_func lessFn xs a b swaps;
          (b, c, swaps) = order2_func lessFn xs b c swaps;
          (a, b, swaps) = order2_func lessFn xs a b swaps
      in (b, swaps))"

definition medianAdjacent_func ::
  "('a \<Rightarrow> 'a \<Rightarrow> bool) \<Rightarrow> 'a list \<Rightarrow> nat \<Rightarrow> nat \<Rightarrow> nat \<times> nat" where
  "medianAdjacent_func lessFn xs a swaps = median_func lessFn xs (a - 1) a (a + 1) swaps"

definition choosePivot_func ::
  "('a \<Rightarrow> 'a \<Rightarrow> bool) \<Rightarrow> 'a list \<Rightarrow> nat \<Rightarrow> nat \<Rightarrow> nat \<times> sortedHint" where
  "choosePivot_func lessFn xs a b =
     (let l = b - a;
          swaps = 0;
          i = a + l div 4 * 1;
          j = a + l div 4 * 2;
          k = a + l div 4 * 3;
          (j, swaps) =
            (if 8 \<le> l then
               let (i, j, k, swaps) =
                     (if 50 \<le> l then
                        let (i, swaps) = medianAdjacent_func lessFn xs i swaps;
                            (j, swaps) = medianAdjacent_func lessFn xs j swaps;
                            (k, swaps) = medianAdjacent_func lessFn xs k swaps
                        in (i, j, k, swaps)
                      else (i, j, k, swaps))
               in median_func lessFn xs i j k swaps
             else (j, swaps))
      in if swaps = 0 then (j, increasingHint)
         else if swaps = 12 then (j, decreasingHint)
         else (j, unknownHint))"

function reverseRange_loop :: "'a list \<Rightarrow> nat \<Rightarrow> nat \<Rightarrow> 'a list" where
  "reverseRange_loop xs i j =
     (if i < j then reverseRange_loop (Swap xs i j) (i + 1) (j - 1) else xs)"
  by pat_completeness auto
termination
  by (relation "measure (\<lambda>(xs, i, j). j - i)") auto

declare reverseRange_loop.simps [simp del]

definition reverseRange_func :: "'a list \<Rightarrow> nat \<Rightarrow> nat \<Rightarrow> 'a list" where
  "reverseRange_func xs a b = reverseRange_loop xs a (b - 1)"

text \<open>
  \<open>pdqsort_func\<close>: the \<open>for\<close> loop is \<open>pdqsort_loop\<close>, with the variables \<open>wasBalanced\<close>
  and \<open>wasPartitioned\<close> of the loop as arguments; the loop sorts the shorter side of a
  partition by a call of \<open>pdqsort_func\<close> and goes on with the longer side.
\<close>

function pdqsort_loop ::
  "(64 word \<Rightarrow> 64 word) \<Rightarrow> ('a \<Rightarrow> 'a \<Rightarrow> bool) \<Rightarrow> 'a list \<Rightarrow> nat \<Rightarrow> nat \<Rightarrow> nat \<Rightarrow>
   bool \<Rightarrow> bool \<Rightarrow> 'a list" where
  "pdqsort_loop xorshift_Next lessFn xs a b limit wasBalanced wasPartitioned =
     (if b - a \<le> 12 then insertionSort_func lessFn xs a b
      else if limit = 0 then heapSort_func lessFn xs a b
      else
        let (xs, limit) =
              (if \<not> wasBalanced then (breakPatterns_func xorshift_Next xs a b, limit - 1)
               else (xs, limit));
            (pivot, hint) = choosePivot_func lessFn xs a b;
            (xs, pivot, hint) =
              (if hint = decreasingHint
               then (reverseRange_func xs a b, (b - 1) - (pivot - a), increasingHint)
               else (xs, pivot, hint));
            (xs, isSorted) =
              (if wasBalanced \<and> wasPartitioned \<and> hint = increasingHint
               then partialInsertionSort_func lessFn xs a b
               else (xs, False))
        in if isSorted then xs
           else if 0 < a \<and> \<not> Less lessFn xs (a - 1) pivot then
             let (xs, mid) = partitionEqual_func lessFn xs a b pivot
             in pdqsort_loop xorshift_Next lessFn xs mid b limit wasBalanced wasPartitioned
           else
             let (xs, mid, alreadyPartitioned) = partition_func lessFn xs a b pivot;
                 leftLen = mid - a;
                 rightLen = b - mid;
                 balanceThreshold = (b - a) div 8
             in if leftLen < rightLen then
                  pdqsort_loop xorshift_Next lessFn
                    (pdqsort_loop xorshift_Next lessFn xs a mid limit True True)
                    (mid + 1) b limit (balanceThreshold \<le> leftLen) alreadyPartitioned
                else
                  pdqsort_loop xorshift_Next lessFn
                    (pdqsort_loop xorshift_Next lessFn xs (mid + 1) b limit True True)
                    a mid limit (balanceThreshold \<le> rightLen) alreadyPartitioned)"
  by pat_completeness auto
termination
proof -
  have up: "i \<le> scanUp P i j" for P i j
    by (induction P i j rule: scanUp.induct) (subst scanUp.simps, auto dest: Suc_leD)
  have down: "scanDown Q i j \<le> j \<and> min j (i - 1) \<le> scanDown Q i j" for Q i j
    by (induction j) auto
  have loop: "a \<le> snd (partition_loop lessFn xs a i j) \<and> snd (partition_loop lessFn xs a i j) \<le> j"
    if "a < i" and "a \<le> j" for lessFn :: "'a \<Rightarrow> 'a \<Rightarrow> bool" and xs a i j
    using that
  proof (induction lessFn xs a i j rule: partition_loop.induct)
    case (1 lessFn xs a i j)
    define i' where "i' = scanUp (\<lambda>i. Less lessFn xs i a) i j"
    define j' where "j' = scanDown (\<lambda>j. \<not> Less lessFn xs j a) i' j"
    from up [of i _ j] have i: "i \<le> i'"
      by (simp add: i'_def)
    from down [of _ i' j] have j: "j' \<le> j" "min j (i' - 1) \<le> j'"
      by (simp_all add: j'_def)
    show ?case
    proof (cases "j' < i'")
      case True
      with i j "1.prems" show ?thesis
        by (subst (1 2) partition_loop.simps) (simp add: Let_def i'_def [symmetric] j'_def [symmetric])
    next
      case False
      with i "1.prems" have "a < i' + 1" and "a \<le> j' - 1"
        by simp_all
      from "1.IH" [OF i'_def j'_def False this] j
      have "a \<le> snd (partition_loop lessFn (Swap xs i' j') a (i' + 1) (j' - 1)) \<and>
            snd (partition_loop lessFn (Swap xs i' j') a (i' + 1) (j' - 1)) \<le> j"
        by linarith
      with False show ?thesis
        by (subst (1 2) partition_loop.simps) (simp add: Let_def i'_def [symmetric] j'_def [symmetric])
    qed
  qed
  have part: "a \<le> mid \<and> mid < b"
    if "(ys, mid, ap) = partition_func lessFn xs a b pivot" and "a < b"
    for lessFn :: "'a \<Rightarrow> 'a \<Rightarrow> bool" and xs ys a b pivot mid ap
  proof -
    define zs where "zs = Swap xs a pivot"
    define i where "i = scanUp (\<lambda>i. Less lessFn zs i a) (a + 1) (b - 1)"
    define j where "j = scanDown (\<lambda>j. \<not> Less lessFn zs j a) i (b - 1)"
    from up [of "a + 1" "\<lambda>i. Less lessFn zs i a" "b - 1"] have i: "a < i"
      by (simp add: i_def)
    from down [of "\<lambda>j. \<not> Less lessFn zs j a" i "b - 1"] have j: "j \<le> b - 1" "min (b - 1) (i - 1) \<le> j"
      by (simp_all add: j_def)
    have pf: "partition_func lessFn xs a b pivot =
        (if j < i then (Swap zs j a, j, True)
         else (case partition_loop lessFn (Swap zs i j) a (i + 1) (j - 1) of
                 (xs, j) \<Rightarrow> (Swap xs j a, j, False)))"
      unfolding partition_func_def Let_def zs_def i_def j_def ..
    show ?thesis
    proof (cases "j < i")
      case True
      with that(1) have "mid = j"
        by (simp add: pf)
      with i j that(2) show ?thesis
        by (auto simp: min_def split: if_splits)
    next
      case False
      with that(1) have "mid = snd (partition_loop lessFn (Swap zs i j) a (i + 1) (j - 1))"
        by (simp add: pf split_beta)
      moreover from False i have "a < i + 1" and "a \<le> j - 1"
        by simp_all
      from loop [OF this, of lessFn "Swap zs i j"] j that(2)
      have "a \<le> snd (partition_loop lessFn (Swap zs i j) a (i + 1) (j - 1)) \<and>
            snd (partition_loop lessFn (Swap zs i j) a (i + 1) (j - 1)) < b"
        by linarith
      ultimately show ?thesis
        by simp
    qed
  qed
  have eqloop: "i \<le> snd (partitionEqual_loop lessFn xs a i j)"
    for lessFn :: "'a \<Rightarrow> 'a \<Rightarrow> bool" and xs a i j
  proof (induction lessFn xs a i j rule: partitionEqual_loop.induct)
    case (1 lessFn xs a i j)
    define i' where "i' = scanUp (\<lambda>i. \<not> Less lessFn xs a i) i j"
    define j' where "j' = scanDown (\<lambda>j. Less lessFn xs a j) i' j"
    from up [of i _ j] have i: "i \<le> i'"
      by (simp add: i'_def)
    show ?case
    proof (cases "j' < i'")
      case True
      with i show ?thesis
        by (subst partitionEqual_loop.simps) (simp add: Let_def i'_def [symmetric] j'_def [symmetric])
    next
      case False
      from "1.IH" [OF i'_def j'_def False] False i show ?thesis
        by (subst partitionEqual_loop.simps) (simp add: Let_def i'_def [symmetric] j'_def [symmetric])
    qed
  qed
  have eq: "a < mid" if "(ys, mid) = partitionEqual_func lessFn xs a b pivot"
    for lessFn :: "'a \<Rightarrow> 'a \<Rightarrow> bool" and xs ys a b pivot mid
    using eqloop [of "a + 1" lessFn "Swap xs a pivot" a "b - 1"] that
    by (simp add: partitionEqual_func_def) (metis Suc_le_lessD snd_conv)
  show ?thesis
    by (relation "measure (\<lambda>(step, lessFn, xs, a, b, limit, wasBalanced, wasPartitioned). b - a)")
       (auto dest!: part eq)
qed

declare pdqsort_loop.simps [simp del]

definition pdqsort_func ::
  "(64 word \<Rightarrow> 64 word) \<Rightarrow> ('a \<Rightarrow> 'a \<Rightarrow> bool) \<Rightarrow> 'a list \<Rightarrow> nat \<Rightarrow> nat \<Rightarrow> nat \<Rightarrow> 'a list" where
  "pdqsort_func xorshift_Next lessFn xs a b limit =
     pdqsort_loop xorshift_Next lessFn xs a b limit True True"

text \<open>
  \<open>sort.Slice(x, less)\<close>: \<open>less(i, j)\<close> of the program compares the elements \<open>i\<close> and \<open>j\<close>
  of the slice being sorted.
\<close>

definition Slice :: "(64 word \<Rightarrow> 64 word) \<Rightarrow> ('a \<Rightarrow> 'a \<Rightarrow> bool) \<Rightarrow> 'a list \<Rightarrow> 'a list" where
  "Slice xorshift_Next lessFn xs =
     (let n = length xs;
          limit = bits_Len n
      in pdqsort_func xorshift_Next lessFn xs 0 n limit)"

subsection \<open>analyzeFiles\<close>

text \<open>The loop over \<open>files\<close> that fills \<open>filesByExt\<close> and \<open>sizeByExt\<close>.\<close>

fun groupByExt ::
  "FileInfo list \<Rightarrow> (string, int) gomap \<times> (string, int64) gomap \<Rightarrow>
   (string, int) gomap \<times> (string, int64) gomap" where
  "groupByExt [] (filesByExt, sizeByExt) = (filesByExt, sizeByExt)"
| "groupByExt (file # rest) (filesByExt, sizeByExt) =
     groupByExt rest
       (map_incr filesByExt (Ext file) 1, map_incr sizeByExt (Ext file) (Size file))"

definition analyzeFiles ::
  "((FileInfo \<Rightarrow> FileInfo \<Rightarrow> bool) \<Rightarrow> FileInfo list \<Rightarrow> FileInfo list) \<Rightarrow>
   FileInfo list \<Rightarrow> int64 \<Rightarrow> (string, int64) gomap \<Rightarrow> int \<Rightarrow> AnalysisResults" where
  "analyzeFiles sort_Slice fs totalSize directorySizes daysUnused =
     (let largestFiles = sort_Slice (\<lambda>a b. Size b <s Size a) fs;
          oldestFiles = sort_Slice (\<lambda>a b. Before (LastUsed a) (LastUsed b)) fs;
          (filesByExt, sizeByExt) = groupByExt fs ([], [])
      in \<lparr>TotalFiles = int (length fs),
          TotalSize = totalSize,
          LargestFiles = largestFiles,
          FilesByExtension = filesByExt,
          SizeByExtension = sizeByExt,
          OldestFiles = oldestFiles,
          DirectorySizes = directorySizes\<rparr>)"

subsection \<open>printAnalysis and printSortedMap\<close>

text \<open>
  The output is the list of the lines printed. The line of one file, as both file
  sections print it; the clock is read by \<open>formatTime\<close>.
\<close>

definition fileLine :: "(nat \<Rightarrow> Time) \<Rightarrow> FileInfo \<Rightarrow> nat \<Rightarrow> string \<times> nat" where
  "fileLine clk file c =
     (let (ago, c') = formatTime clk c (LastUsed file)
      in (formatSize (Size file) @ '' - '' @ Path file @ '' (Last used: '' @ ago @ '')'', c'))"

text \<open>
  The loop \<open>for i := 0; i < topN && i < len(xs); i++\<close> with a body that prints one line
  for \<open>xs[i]\<close> and may change a state (the number of clock readings).
\<close>

function topLoop ::
  "int \<Rightarrow> int \<Rightarrow> 'a list \<Rightarrow> ('a \<Rightarrow> 's \<Rightarrow> string \<times> 's) \<Rightarrow> 's \<Rightarrow> string list \<times> 's" where
  "topLoop i topN xs body s =
     (if i < topN \<and> i < int (length xs) then
        let (line, s') = body (xs ! nat i) s;
            (rest, s'') = topLoop (i + 1) topN xs body s'
        in (line # rest, s'')
      else ([], s))"
  by pat_completeness auto
termination
  by (relation "measure (\<lambda>(i, topN, xs, body, s). nat (int (length xs) - i))") auto

declare topLoop.simps [simp del]

text \<open>
  The loop of the unused-files section: it prints a file that was last used before the
  cutoff, counts it, and only then compares the count with \<open>topN\<close>.
\<close>

fun unusedLoop ::
  "(nat \<Rightarrow> Time) \<Rightarrow> Time \<Rightarrow> int \<Rightarrow> FileInfo list \<Rightarrow> int \<Rightarrow> nat \<Rightarrow> string list \<times> int \<times> nat" where
  "unusedLoop clk cutoff topN [] printed c = ([], printed, c)"
| "unusedLoop clk cutoff topN (file # rest) printed c =
     (if Before (LastUsed file) cutoff then
        let (line, c') = fileLine clk file c;
            printed' = printed + 1
        in if topN \<le> printed' then ([line], printed', c')
           else let (ls, p, c'') = unusedLoop clk cutoff topN rest printed' c'
                in (line # ls, p, c'')
      else unusedLoop clk cutoff topN rest printed c)"

definition printSortedMap ::
  "((string, 'v) gomap \<Rightarrow> (string \<times> 'v) list) \<Rightarrow>
   (((string \<times> 'v) \<Rightarrow> (string \<times> 'v) \<Rightarrow> bool) \<Rightarrow> (string \<times> 'v) list \<Rightarrow> (string \<times> 'v) list) \<Rightarrow>
   (string, 'v) gomap \<Rightarrow> int \<Rightarrow> ('v \<Rightarrow> 'v \<Rightarrow> bool) \<Rightarrow> ('v \<Rightarrow> string) \<Rightarrow> string list" where
  "printSortedMap rng sort_Slice m topN lessFn format =
     (let sorted = sort_Slice (\<lambda>a b. lessFn (snd a) (snd b)) (rng m)
      in fst (topLoop 0 topN sorted (\<lambda>kv u. (format (snd kv) @ '' - '' @ fst kv, u)) ()))"

text \<open>
  The parts of the run that the Go runtime and library decide: \<open>strings.ToLower\<close>,
  \<open>filepath.Dir\<close>, the readings of \<open>time.Now()\<close>, \<open>t.AddDate(0, 0, days)\<close> (calendar days in the local time
  zone), and \<open>sort.Slice\<close> and \<open>range\<close> at the types at which the program uses them.
\<close>

record runtime =
  rt_ToLower :: "string \<Rightarrow> string"
  rt_Dir :: "string \<Rightarrow> string"
  rt_clock :: "nat \<Rightarrow> Time"
  rt_addDays :: "Time \<Rightarrow> int \<Rightarrow> Time"
  rt_sortFiles :: "(FileInfo \<Rightarrow> FileInfo \<Rightarrow> bool) \<Rightarrow> FileInfo list \<Rightarrow> FileInfo list"
  rt_rangeCounts :: "(string, int) gomap \<Rightarrow> (string \<times> int) list"
  rt_sortCounts ::
    "((string \<times> int) \<Rightarrow> (string \<times> int) \<Rightarrow> bool) \<Rightarrow> (string \<times> int) list \<Rightarrow> (string \<times> int) list"
  rt_rangeSizes :: "(string, int64) gomap \<Rightarrow> (string \<times> int64) list"
  rt_sortSizes ::
    "((string \<times> int64) \<Rightarrow> (string \<times> int64) \<Rightarrow> bool) \<Rightarrow> (string \<times> int64) list \<Rightarrow>
     (string \<times> int64) list"

definition runtime_ok :: "runtime \<Rightarrow> bool" where
  "runtime_ok rt \<longleftrightarrow>
     sort_Slice_contract (rt_sortFiles rt) \<and>
     range_contract (rt_rangeCounts rt) \<and> sort_Slice_contract (rt_sortCounts rt) \<and>
     range_contract (rt_rangeSizes rt) \<and> sort_Slice_contract (rt_sortSizes rt)"

text \<open>The sections of the report, in the order printed.\<close>

definition generalSection :: "AnalysisResults \<Rightarrow> string list" where
  "generalSection results =
     ['''', ''=== General Information ==='',
      ''Total files analyzed: '' @ showInt (TotalFiles results),
      ''Total size analyzed: '' @ formatSize (TotalSize results)]"

definition largestEntries :: "runtime \<Rightarrow> AnalysisResults \<Rightarrow> int \<Rightarrow> nat \<Rightarrow> string list \<times> nat" where
  "largestEntries rt results topN c =
     topLoop 0 topN (LargestFiles results) (fileLine (rt_clock rt)) c"

definition noneFound :: string where
  "noneFound = ''No files found that haven't been used in this time period.''"

definition unusedEntries ::
  "runtime \<Rightarrow> AnalysisResults \<Rightarrow> int \<Rightarrow> int \<Rightarrow> nat \<Rightarrow> string list \<times> nat" where
  "unusedEntries rt results topN daysUnused c =
     (let cutoff = rt_addDays rt (rt_clock rt c) (- daysUnused);
          (ls, printed, c') =
             unusedLoop (rt_clock rt) cutoff topN (OldestFiles results) 0 (Suc c)
      in if printed = 0 then (ls @ [noneFound], c') else (ls, c'))"

definition countEntries :: "runtime \<Rightarrow> AnalysisResults \<Rightarrow> int \<Rightarrow> string list" where
  "countEntries rt results topN =
     printSortedMap (rt_rangeCounts rt) (rt_sortCounts rt) (FilesByExtension results) topN
       (\<lambda>a b. b < a) (\<lambda>v. showInt v @ '' files'')"

definition extSizeEntries :: "runtime \<Rightarrow> AnalysisResults \<Rightarrow> int \<Rightarrow> string list" where
  "extSizeEntries rt results topN =
     printSortedMap (rt_rangeSizes rt) (rt_sortSizes rt) (SizeByExtension results) topN
       (\<lambda>a b. b <s a) formatSize"

definition dirSizeEntries :: "runtime \<Rightarrow> AnalysisResults \<Rightarrow> int \<Rightarrow> string list" where
  "dirSizeEntries rt results topN =
     printSortedMap (rt_rangeSizes rt) (rt_sortSizes rt) (DirectorySizes results) topN
       (\<lambda>a b. b <s a) formatSize"

definition printAnalysis :: "runtime \<Rightarrow> AnalysisResults \<Rightarrow> int \<Rightarrow> int \<Rightarrow> string list" where
  "printAnalysis rt results topN daysUnused =
     (let (largest, c) = largestEntries rt results topN 0;
          (unused, c') = unusedEntries rt results topN daysUnused c
      in generalSection results
         @ ['''', ''=== Top '' @ showInt topN @ '' Largest Files ===''] @ largest
         @ ['''', ''=== Top '' @ showInt topN @ '' Oldest/Unused Files (not accessed in ''
                  @ showInt daysUnused @ '' days) ===''] @ unused
         @ ['''', ''=== File Extensions by Count ===''] @ countEntries rt results topN
         @ ['''', ''=== File Extensions by Size ===''] @ extSizeEntries rt results topN
         @ ['''', ''=== Top '' @ showInt topN @ '' Largest Directories ===''] @
           dirSizeEntries rt results topN)"

subsection \<open>main\<close>

text \<open>
  How a run ends: \<open>os.Exit(1)\<close> for an empty \<open>-dir\<close>, the return after
  \<open>Error walking directory\<close>, the return after \<open>No files found\<close>, or the return after the
  report, which carries the results that were printed. \<open>run_out\<close> holds the lines written
  to standard output (the usage text of \<open>flag.Usage\<close> goes to standard error).
\<close>

datatype ending = UsageExit | WalkFailed string | NoFilesFound | Reported AnalysisResults

record run =
  run_out :: "string list"
  run_end :: ending

definition main :: "runtime \<Rightarrow> string \<Rightarrow> int \<Rightarrow> int64 \<Rightarrow> int \<Rightarrow> visit list \<Rightarrow> run" where
  "main rt dir topN minSize daysUnused visits =
     (if dir = [] then
        \<lparr>run_out = [''Error: directory path cannot be empty''], run_end = UsageExit\<rparr>
      else
        let banner =
              [''Analyzing files in: '' @ dir,
               ''Showing top '' @ showInt topN @ '' results'',
               ''Considering files larger than '' @ formatSize minSize @ '' as significant'',
               ''Considering files unused if not accessed in '' @ showInt daysUnused @ '' days'',
               ''''];
            (err, s) = WalkDir visits (walkFn (rt_ToLower rt) (rt_Dir rt) minSize) walk_init
        in case err of
             Some e \<Rightarrow>
               \<lparr>run_out = banner @ ws_out s @ [''Error walking directory: '' @ e],
                run_end = WalkFailed e\<rparr>
           | None \<Rightarrow>
               if length (ws_files s) = 0 then
                 \<lparr>run_out = banner @ ws_out s @ [''No files found matching the criteria.''],
                  run_end = NoFilesFound\<rparr>
               else
                 let results = analyzeFiles (rt_sortFiles rt) (ws_files s) (ws_totalSize s)
                                 (ws_directorySizes s) daysUnused
                 in \<lparr>run_out = banner @ ws_out s @ printAnalysis rt results topN daysUnused,
                     run_end = Reported results\<rparr>)"

subsection \<open>Notions of the specification\<close>

text \<open>
  A visit of a regular file whose size is strictly below the floor: the entry was read
  without error, it is not a directory, and its size is less than \<open>minSize\<close>.
\<close>

definition below_floor :: "int64 \<Rightarrow> visit \<Rightarrow> bool" where
  "below_floor minSize v \<longleftrightarrow>
     v_err v = None \<and> \<not> v_IsDir v \<and>
     (case v_Info v of Inl e \<Rightarrow> False | Inr info \<Rightarrow> st_Size info <s minSize)"

text \<open>The sum of the values of a map.\<close>

definition sum_values :: "('k, 'v::comm_monoid_add) gomap \<Rightarrow> 'v" where
  "sum_values m = sum_list (map snd m)"

text \<open>
  What the walk has collected when it ends (the callback never stops it, lemma
  \<open>WalkDir_walkFn\<close>), and the invariant of the two running totals.
\<close>

definition collected :: "runtime \<Rightarrow> int64 \<Rightarrow> visit list \<Rightarrow> walk_state" where
  "collected rt m vs = fold (\<lambda>v s. snd (walkFn (rt_ToLower rt) (rt_Dir rt) m v s)) vs walk_init"

definition walk_inv :: "walk_state \<Rightarrow> bool" where
  "walk_inv s \<longleftrightarrow>
     ws_totalSize s = sum_list (map Size (ws_files s)) \<and>
     sum_values (ws_directorySizes s) = ws_totalSize s"

text \<open>
  \<open>ys\<close> is the stable sort of \<open>xs\<close> by \<open>key\<close>: a permutation, in ascending order of
  keys, in which the elements of each key keep the order they have in \<open>xs\<close>.
\<close>

definition stable_sort_of :: "('a \<Rightarrow> int) \<Rightarrow> 'a list \<Rightarrow> 'a list \<Rightarrow> bool" where
  "stable_sort_of key xs ys \<longleftrightarrow>
     mset ys = mset xs \<and> sorted (map key ys) \<and>
     (\<forall>x \<in> set xs. filter (\<lambda>y. key y = key x) ys = filter (\<lambda>y. key y = key x) xs)"

text \<open>
  Printing a sequence of entries in order, one line each, with the state threaded
  through; \<open>fileLines\<close> prints a sequence of files.
\<close>

fun printAll :: "('a \<Rightarrow> 's \<Rightarrow> string \<times> 's) \<Rightarrow> 'a list \<Rightarrow> 's \<Rightarrow> string list \<times> 's" where
  "printAll body [] s = ([], s)"
| "printAll body (x # xs) s =
     (let (line, s') = body x s;
          (ls, s'') = printAll body xs s'
      in (line # ls, s''))"

definition fileLines :: "(nat \<Rightarrow> Time) \<Rightarrow> FileInfo list \<Rightarrow> nat \<Rightarrow> string list \<times> nat" where
  "fileLines clk fs c = printAll (fileLine clk) fs c"

text \<open>
  The value of a \<open>float64\<close> as a real number. \<open>N\<close> is an integer nearest to the value of
  \<open>x\<close>: they differ by at most one half.
\<close>

definition fval :: "float64 \<Rightarrow> real" where
  "fval x = real (fst x) / real (snd x)"

definition nearest :: "nat \<Rightarrow> float64 \<Rightarrow> bool" where
  "nearest N x \<longleftrightarrow>
     (case x of (n, d) \<Rightarrow> 0 < d \<and> 2 * (N * d) \<le> 2 * n + d \<and> 2 * n \<le> 2 * (N * d) + d)"

text \<open>
  Sizes read as integers: the sum of the values of a map of sizes, the sum of the sizes
  of a list of files, and the state of a walk whose running totals have not wrapped
  around.
\<close>

definition sum_sizes :: "('k, int64) gomap \<Rightarrow> int" where
  "sum_sizes m = (\<Sum>kv\<leftarrow>m. sint (snd kv))"

definition total_bytes :: "FileInfo list \<Rightarrow> int" where
  "total_bytes fs = (\<Sum>f\<leftarrow>fs. sint (Size f))"

definition walk_exact :: "walk_state \<Rightarrow> bool" where
  "walk_exact s \<longleftrightarrow>
     sint (ws_totalSize s) = total_bytes (ws_files s) \<and>
     sum_sizes (ws_directorySizes s) = total_bytes (ws_files s) \<and>
     list_all (\<lambda>kv. 0 \<le> sint (snd kv)) (ws_directorySizes s)"

subsection \<open>Instances of the runtime and example scans\<close>

text \<open>
  An insertion sort that keeps equal elements in their original order, as \<open>sort.Slice\<close>
  does on a slice of at most 12 elements. It is an instance of the contract; the
  examples of at most two files below run the program with it.
\<close>

fun insertBy :: "('a \<Rightarrow> 'a \<Rightarrow> bool) \<Rightarrow> 'a \<Rightarrow> 'a list \<Rightarrow> 'a list" where
  "insertBy lessFn x [] = [x]"
| "insertBy lessFn x (y # ys) =
     (if lessFn y x then y # insertBy lessFn x ys else x # y # ys)"

definition insertionSort :: "('a \<Rightarrow> 'a \<Rightarrow> bool) \<Rightarrow> 'a list \<Rightarrow> 'a list" where
  "insertionSort lessFn xs = foldr (insertBy lessFn) xs []"

text \<open>
  For the examples: \<open>strings.ToLower\<close> as it is on ASCII strings, the path up to its last
  separator as the directory of a file, and \<open>AddDate\<close> in UTC, where every day has 86400
  seconds.
\<close>

definition asciiToLower :: "string \<Rightarrow> string" where
  "asciiToLower s = map lower_char s"

definition parentDir :: "string \<Rightarrow> string" where
  "parentDir path = rev (drop 1 (dropWhile (\<lambda>c. c \<noteq> CHR ''/'') (rev path)))"

definition utcAddDays :: "Time \<Rightarrow> int \<Rightarrow> Time" where
  "utcAddDays t days = t + days * 86400000000000"

definition stableRuntime :: runtime where
  "stableRuntime =
     \<lparr>rt_ToLower = asciiToLower, rt_Dir = parentDir, rt_clock = (\<lambda>c. 63900000000000000000 + int c),
      rt_addDays = utcAddDays, rt_sortFiles = insertionSort,
      rt_rangeCounts = (\<lambda>m. m), rt_sortCounts = insertionSort,
      rt_rangeSizes = (\<lambda>m. m), rt_sortSizes = insertionSort\<rparr>"

text \<open>The clock reading of the examples, and a clock that stands still at it.\<close>

definition exampleNow :: Time where
  "exampleNow = 63900000000000000000"

definition stoppedClock :: "nat \<Rightarrow> Time" where
  "stoppedClock c = exampleNow"

text \<open>
  A walk of \<open>/data\<close> at a clock reading of 63900000000000000000 ns: the directory itself,
  \<open>a.TXT\<close> (5000 bytes, last modified 40 days earlier), \<open>b.txt\<close> (3000 bytes, 10 days
  earlier), \<open>notes\<close> (10 bytes) and an entry that cannot be read.
\<close>

definition exampleVisits :: "visit list" where
  "exampleVisits =
     [\<lparr>v_path = ''/data'', v_err = None, v_IsDir = True,
       v_Info = Inr \<lparr>st_Name = ''data'', st_Size = 4096, st_ModTime = 63899136000000000000\<rparr>,
       v_probe = OpenError\<rparr>,
      \<lparr>v_path = ''/data/a.TXT'', v_err = None, v_IsDir = False,
       v_Info = Inr \<lparr>st_Name = ''a.TXT'', st_Size = 5000, st_ModTime = 63896544000000000000\<rparr>,
       v_probe = OpenError\<rparr>,
      \<lparr>v_path = ''/data/b.txt'', v_err = None, v_IsDir = False,
       v_Info = Inr \<lparr>st_Name = ''b.txt'', st_Size = 3000, st_ModTime = 63899136000000000000\<rparr>,
       v_probe = OpenError\<rparr>,
      \<lparr>v_path = ''/data/notes'', v_err = None, v_IsDir = False,
       v_Info = Inr \<lparr>st_Name = ''notes'', st_Size = 10, st_ModTime = 63899136000000000000\<rparr>,
       v_probe = OpenError\<rparr>,
      \<lparr>v_path = ''/data/locked'', v_err = Some ''permission denied'', v_IsDir = False,
       v_Info = Inl ''permission denied'', v_probe = OpenError\<rparr>]"

definition exampleFiles :: "FileInfo list" where
  "exampleFiles =
     [\<lparr>Path = ''/data/a.TXT'', Size = 5000, Ext = ''.txt'', LastUsed = 63896544000000000000\<rparr>,
      \<lparr>Path = ''/data/b.txt'', Size = 3000, Ext = ''.txt'', LastUsed = 63899136000000000000\<rparr>]"

definition exampleResults :: AnalysisResults where
  "exampleResults =
     \<lparr>TotalFiles = 2, TotalSize = 8000, LargestFiles = exampleFiles,
      FilesByExtension = [(''.txt'', 2)], SizeByExtension = [(''.txt'', 8000)],
      OldestFiles = exampleFiles, DirectorySizes = [(''/data'', 8000)]\<rparr>"

text \<open>
  Thirteen files \<open>/data/a\<close> to \<open>/data/m\<close>, in the order in which a walk collects them (the
  order of their names). The first twelve have the same size and the same time of last
  use; \<open>m\<close> is larger and was used earlier.
\<close>

definition dataFile :: "char \<Rightarrow> FileInfo" where
  "dataFile c =
     \<lparr>Path = ''/data/'' @ [c],
      Size = (if c = CHR ''m'' then 3000 else 2000),
      Ext = ''no_extension'',
      LastUsed = (if c = CHR ''m'' then 63896544000000000000 else 63899136000000000000)\<rparr>"

definition thirteenFiles :: "FileInfo list" where
  "thirteenFiles = map dataFile ''abcdefghijklm''"

text \<open>A runtime whose \<open>range\<close> enumerates a map of counts in the opposite order.\<close>

definition reversedRuntime :: runtime where
  "reversedRuntime = stableRuntime\<lparr>rt_rangeCounts := rev\<rparr>"

text \<open>Two files with different extensions, and the results of their analysis.\<close>

definition mixedFiles :: "FileInfo list" where
  "mixedFiles =
     [\<lparr>Path = ''/data/main.go'', Size = 5000, Ext = ''.go'', LastUsed = 63896544000000000000\<rparr>,
      \<lparr>Path = ''/data/README.md'', Size = 3000, Ext = ''.md'',
       LastUsed = 63899136000000000000\<rparr>]"

definition tiedResults :: AnalysisResults where
  "tiedResults =
     \<lparr>TotalFiles = 2, TotalSize = 8000, LargestFiles = mixedFiles,
      FilesByExtension = [(''.go'', 1), (''.md'', 1)],
      SizeByExtension = [(''.go'', 5000), (''.md'', 3000)],
      OldestFiles = mixedFiles, DirectorySizes = [(''/data'', 8000)]\<rparr>"

text \<open>The single call that \<open>filepath.WalkDir\<close> makes for a root that does not exist.\<close>

definition missingRoot :: "visit list" where
  "missingRoot =
     [\<lparr>v_path = ''/nonexistent'',
       v_err = Some ''lstat /nonexistent: no such file or directory'',
       v_IsDir = False, v_Info = Inl ''no entry'', v_probe = OpenError\<rparr>]"

text \<open>
  The two calls that \<open>filepath.WalkDir\<close> makes for a root directory that cannot be
  listed: the visit of the directory, and the report of the error of \<open>ReadDir\<close>.
\<close>

definition unreadableRoot :: "visit list" where
  "unreadableRoot =
     [\<lparr>v_path = ''/root'', v_err = None, v_IsDir = True,
       v_Info = Inr \<lparr>st_Name = ''root'', st_Size = 4096, st_ModTime = 63899136000000000000\<rparr>,
       v_probe = OpenError\<rparr>,
      \<lparr>v_path = ''/root'', v_err = Some ''open /root: permission denied'', v_IsDir = True,
       v_Info = Inr \<lparr>st_Name = ''root'', st_Size = 4096, st_ModTime = 63899136000000000000\<rparr>,
       v_probe = OpenError\<rparr>]"

section \<open>Properties\<close>

subsection \<open>Maps, the grouping loop and the walk\<close>


lemma sum_values_map_incr: "sum_values (map_incr m k v) = sum_values m + v"
  by (induction m) (auto simp: sum_values_def ac_simps)

lemma keys_map_incr:
  "map fst (map_incr m k v) = (if k \<in> set (map fst m) then map fst m else map fst m @ [k])"
  by (induction m) (fastforce simp: image_iff)+

lemma distinct_map_incr: "distinct (map fst m) \<Longrightarrow> distinct (map fst (map_incr m k v))"
  by (simp add: keys_map_incr)

lemma map_get_map_incr:
  "map_get (map_incr m k v) k' = (if k' = k then map_get m k + v else map_get m k')"
  by (induction m) auto

lemma groupByExt_sums:
  "groupByExt fs (cm, sm) = (cm', sm') \<Longrightarrow>
   sum_values cm' = sum_values cm + int (length fs) \<and>
   sum_values sm' = sum_values sm + sum_list (map Size fs)"
proof (induction fs arbitrary: cm sm)
  case Nil
  then show ?case by simp
next
  case (Cons f fs)
  from Cons.prems
  have "groupByExt fs (map_incr cm (Ext f) 1, map_incr sm (Ext f) (Size f)) = (cm', sm')"
    by simp
  from Cons.IH [OF this] show ?case
    by (simp add: sum_values_map_incr ac_simps)
qed


lemma walkFn_None: "fst (walkFn L D m v s) = None"
  by (simp add: walkFn_def Let_def split: option.split sum.split)

lemma walkFn_inv: "walk_inv s \<Longrightarrow> walk_inv (snd (walkFn L D m v s))"
  by (simp add: walkFn_def walk_inv_def Let_def sum_values_map_incr split: option.split sum.split)

lemma WalkDir_walkFn:
  "WalkDir vs (walkFn L D m) s = (None, fold (\<lambda>v s. snd (walkFn L D m v s)) vs s)"
proof (induction vs arbitrary: s)
  case Nil
  then show ?case by simp
next
  case (Cons v vs)
  obtain s' where "walkFn L D m v s = (None, s')"
    using walkFn_None [of L D m v s] by (cases "walkFn L D m v s") auto
  with Cons show ?case by simp
qed

lemma fold_walk_inv: "walk_inv s \<Longrightarrow> walk_inv (fold (\<lambda>v s. snd (walkFn L D m v s)) vs s)"
  by (induction vs arbitrary: s) (simp_all add: walkFn_inv)

lemma walk_inv_init: "walk_inv walk_init"
  by (simp add: walk_inv_def walk_init_def sum_values_def)


lemma main_Reported:
  "run_end (main rt dir topN minSize daysUnused visits) = Reported r \<longleftrightarrow>
   dir \<noteq> [] \<and> ws_files (collected rt minSize visits) \<noteq> [] \<and>
   r = analyzeFiles (rt_sortFiles rt) (ws_files (collected rt minSize visits))
         (ws_totalSize (collected rt minSize visits))
         (ws_directorySizes (collected rt minSize visits)) daysUnused"
  by (auto simp: main_def WalkDir_walkFn collected_def Let_def)

lemma below_floor_skip: "below_floor m v \<Longrightarrow> walkFn L D m v s = (None, s)"
  by (auto simp: below_floor_def walkFn_def split: sum.splits)

lemma fold_walk_filter:
  "fold (\<lambda>v s. snd (walkFn L D m v s)) (filter (\<lambda>v. \<not> below_floor m v) vs) s =
   fold (\<lambda>v s. snd (walkFn L D m v s)) vs s"
  by (induction vs arbitrary: s) (simp_all add: below_floor_skip)

lemma main_filter:
  "main rt dir topN minSize daysUnused (filter (\<lambda>v. \<not> below_floor minSize v) visits) =
   main rt dir topN minSize daysUnused visits"
  by (simp add: main_def WalkDir_walkFn fold_walk_filter)

lemma walkFn_sizes:
  "\<forall>f \<in> set (ws_files s). \<not> Size f <s m \<Longrightarrow>
   \<forall>f \<in> set (ws_files (snd (walkFn L D m v s))). \<not> Size f <s m"
  by (auto simp: walkFn_def Let_def split: option.split sum.split)

lemma collected_sizes: "\<forall>f \<in> set (ws_files (collected rt m vs)). \<not> Size f <s m"
proof -
  have "\<forall>f \<in> set (ws_files s). \<not> Size f <s m \<Longrightarrow>
        \<forall>f \<in> set (ws_files (fold (\<lambda>v s. snd (walkFn L D m v s)) vs s)). \<not> Size f <s m" for s L D
  proof (induction vs arbitrary: s)
    case Nil
    then show ?case by simp
  next
    case (Cons v vs)
    from walkFn_sizes [OF Cons.prems] have "\<forall>f \<in> set (ws_files (snd (walkFn L D m v s))). \<not> Size f <s m" .
    from Cons.IH [OF this] show ?case by simp
  qed
  from this [of walk_init "rt_ToLower rt" "rt_Dir rt"] show ?thesis
    by (simp add: collected_def walk_init_def)
qed

lemma swo_size: "strict_weak_order (\<lambda>a b. Size b <s Size a)"
  by (auto simp: strict_weak_order_def word_sless_alt)

lemma swo_lastUsed: "strict_weak_order (\<lambda>a b. Before (LastUsed a) (LastUsed b))"
  by (auto simp: strict_weak_order_def Before_def)

lemma analyzeFiles_sets:
  assumes "sort_Slice_contract srt"
  shows "mset (LargestFiles (analyzeFiles srt fs t ds d)) = mset fs"
    and "mset (OldestFiles (analyzeFiles srt fs t ds d)) = mset fs"
  using assms swo_size swo_lastUsed
  by (auto simp: analyzeFiles_def sort_Slice_contract_def Let_def split: prod.split)


subsection \<open>The two sorts meet the contract\<close>

lemma mset_insertBy: "mset (insertBy lt x ys) = add_mset x (mset ys)"
  by (induction ys) auto

lemma set_insertBy: "set (insertBy lt x ys) = insert x (set ys)"
  by (induction ys) auto

lemma sorted_insertBy:
  assumes "strict_weak_order lt" and "sorted_wrt (\<lambda>a b. \<not> lt b a) ys"
  shows "sorted_wrt (\<lambda>a b. \<not> lt b a) (insertBy lt x ys)"
  using assms(2)
proof (induction ys)
  case Nil
  then show ?case by simp
next
  case (Cons y ys)
  from assms(1) have asym: "\<And>a b. lt a b \<Longrightarrow> \<not> lt b a"
    and ntrans: "\<And>a b c. \<not> lt a b \<Longrightarrow> \<not> lt b c \<Longrightarrow> \<not> lt a c"
    unfolding strict_weak_order_def by blast+
  show ?case
  proof (cases "lt y x")
    case True
    with Cons asym show ?thesis by (auto simp: set_insertBy)
  next
    case False
    with Cons ntrans show ?thesis by auto
  qed
qed

lemma foldr_insertBy:
  assumes "strict_weak_order lt"
  shows "mset (foldr (insertBy lt) xs []) = mset xs \<and>
         sorted_wrt (\<lambda>a b. \<not> lt b a) (foldr (insertBy lt) xs [])"
  by (induction xs) (simp_all add: mset_insertBy sorted_insertBy [OF assms])

lemma insertionSort_contract: "sort_Slice_contract insertionSort"
  by (simp add: sort_Slice_contract_def insertionSort_def foldr_insertBy)

lemma range_contract_id: "range_contract (\<lambda>m. m)"
  by (simp add: range_contract_def)

lemma range_contract_rev: "range_contract rev"
  by (simp add: range_contract_def)

lemma stableRuntime_ok: "runtime_ok stableRuntime"
  by (simp add: runtime_ok_def stableRuntime_def insertionSort_contract range_contract_id)

subsection \<open>The index loop prints a prefix\<close>

lemma topLoop_printAll:
  "0 \<le> i \<Longrightarrow> topLoop i topN xs body s = printAll body (drop (nat i) (take (nat topN) xs)) s"
proof (induction i topN xs body s rule: topLoop.induct)
  case (1 i topN xs body s)
  show ?case
  proof (cases "i < topN \<and> i < int (length xs)")
    case True
    then have len: "nat i < length (take (nat topN) xs)" using "1.prems" by (simp add: nat_less_iff)
    from True "1.prems" have "take (nat topN) xs ! nat i = xs ! nat i"
      by (simp add: nat_less_iff)
    with Cons_nth_drop_Suc [OF len, symmetric] "1.prems"
    have d: "drop (nat i) (take (nat topN) xs) =
             xs ! nat i # drop (nat (i + 1)) (take (nat topN) xs)"
      by (simp add: nat_add_distrib)
    obtain line s' where b: "body (xs ! nat i) s = (line, s')"
      by (cases "body (xs ! nat i) s")
    from "1.prems" have "0 \<le> i + 1" by simp
    from "1.IH" [OF True b [symmetric] refl this]
    have "topLoop (i + 1) topN xs body s' =
          printAll body (drop (nat (i + 1)) (take (nat topN) xs)) s'" .
    with True b d show ?thesis
      by (subst topLoop.simps) simp
  next
    case False
    then have "drop (nat i) (take (nat topN) xs) = []" using "1.prems" by auto
    moreover from False have "topLoop i topN xs body s = ([], s)"
      by (subst topLoop.simps) auto
    ultimately show ?thesis by simp
  qed
qed

lemma printAll_pure:
  "printAll (\<lambda>x u. (f x, u)) xs s = (map f xs, s)"
  by (induction xs) simp_all

lemma length_printAll: "length (fst (printAll body xs s)) = length xs"
proof (induction xs arbitrary: s)
  case Nil
  then show ?case by simp
next
  case (Cons x xs)
  obtain line s' where b: "body x s = (line, s')" by (cases "body x s")
  obtain ls s'' where r: "printAll body xs s' = (ls, s'')" by (cases "printAll body xs s'")
  from Cons [of s'] r have "length ls = length xs" by simp
  with b r show ?case by simp
qed

lemma printSortedMap_take:
  "printSortedMap rng srt m topN lt format =
   map (\<lambda>kv. format (snd kv) @ '' - '' @ fst kv)
     (take (nat topN) (srt (\<lambda>a b. lt (snd a) (snd b)) (rng m)))"
  by (simp add: printSortedMap_def topLoop_printAll printAll_pure)

subsection \<open>The loop of the unused-files section\<close>

lemma unusedLoop_spec:
  "unusedLoop clk cutoff topN fs printed c =
     (let sel = take (max 1 (nat (topN - printed)))
                  (filter (\<lambda>f. Before (LastUsed f) cutoff) fs);
          (ls, c') = fileLines clk sel c
      in (ls, printed + int (length sel), c'))"
proof (induction fs arbitrary: printed c)
  case Nil
  then show ?case by (simp add: fileLines_def)
next
  case (Cons f fs)
  show ?case
  proof (cases "Before (LastUsed f) cutoff")
    case False
    with Cons show ?thesis by simp
  next
    case True
    obtain line c' where fl: "fileLine clk f c = (line, c')"
      by (cases "fileLine clk f c")
    show ?thesis
    proof (cases "topN \<le> printed + 1")
      case stop: True
      then have "max 1 (nat (topN - printed)) = 1" by simp
      with True fl stop show ?thesis
        by (simp add: fileLines_def)
    next
      case go: False
      then have m: "max 1 (nat (topN - printed)) = Suc (max 1 (nat (topN - (printed + 1))))"
        by simp
      from True fl go show ?thesis
        unfolding m by (simp add: Cons.IH fileLines_def Let_def split: prod.split)
    qed
  qed
qed


subsection \<open>Evaluating the example scan\<close>

lemma lower_char_simps:
  "lower_char CHR ''T'' = CHR ''t''" "lower_char CHR ''X'' = CHR ''x''"
  "lower_char CHR ''t'' = CHR ''t''" "lower_char CHR ''x'' = CHR ''x''"
  "lower_char CHR ''.'' = CHR ''.''"
  by (simp_all add: lower_char_def)

lemma fileExt_examples:
  "fileExt asciiToLower ''/data/a.TXT'' = ''.txt''"
  "fileExt asciiToLower ''/data/b.txt'' = ''.txt''"
  by (simp_all add: fileExt_def filepath_Ext_def asciiToLower_def lower_char_simps)

lemma asciiToLower_contract: "ToLower_contract asciiToLower"
  by (simp add: ToLower_contract_def asciiToLower_def)

lemma parentDir_examples:
  "parentDir ''/data/a.TXT'' = ''/data''" "parentDir ''/data/b.txt'' = ''/data''"
  by (simp_all add: parentDir_def)

lemma collected_example:
  "collected stableRuntime 1000 exampleVisits =
     \<lparr>ws_files = exampleFiles, ws_totalSize = 8000, ws_directorySizes = [(''/data'', 8000)],
      ws_out = [''Error accessing /data/locked: permission denied'']\<rparr>"
  by (simp add: collected_def exampleVisits_def exampleFiles_def walkFn_def walk_init_def
      stableRuntime_def fileExt_examples parentDir_examples IsZero_def)

lemma analyzeFiles_example:
  "analyzeFiles insertionSort exampleFiles 8000 [(''/data'', 8000)] 30 = exampleResults"
  by (simp add: analyzeFiles_def exampleFiles_def exampleResults_def insertionSort_def Before_def)

lemma main_example:
  "run_end (main stableRuntime ''/data'' 10 1000 30 exampleVisits) = Reported exampleResults"
proof -
  have "rt_sortFiles stableRuntime = insertionSort"
    by (simp add: stableRuntime_def)
  moreover have "exampleFiles \<noteq> []"
    by (simp add: exampleFiles_def)
  ultimately show ?thesis
    by (simp add: main_Reported collected_example analyzeFiles_example)
qed


subsection \<open>The sections of the report\<close>

lemma unusedEntries_spec:
  "unusedEntries rt results topN daysUnused c =
     (let cutoff = rt_addDays rt (rt_clock rt c) (- daysUnused);
          qualifying = filter (\<lambda>f. LastUsed f < cutoff) (OldestFiles results)
      in if qualifying = [] then ([noneFound], Suc c)
         else fileLines (rt_clock rt) (take (max 1 (nat topN)) qualifying) (Suc c))"
proof -
  define cutoff where "cutoff = rt_addDays rt (rt_clock rt c) (- daysUnused)"
  define qualifying where "qualifying = filter (\<lambda>f. LastUsed f < cutoff) (OldestFiles results)"
  have q: "filter (\<lambda>f. Before (LastUsed f) cutoff) (OldestFiles results) = qualifying"
    by (simp add: qualifying_def Before_def)
  have c: "rt_addDays rt (rt_clock rt c) (- daysUnused) = cutoff"
    by (simp add: cutoff_def)
  obtain ls c' where f: "fileLines (rt_clock rt) (take (max 1 (nat topN)) qualifying) (Suc c) = (ls, c')"
    by (cases "fileLines (rt_clock rt) (take (max 1 (nat topN)) qualifying) (Suc c)")
  have "unusedEntries rt results topN daysUnused c =
        (if qualifying = [] then ([noneFound], Suc c)
         else fileLines (rt_clock rt) (take (max 1 (nat topN)) qualifying) (Suc c))"
  proof (cases "qualifying = []")
    case True
    then show ?thesis
      by (simp add: unusedEntries_def c unusedLoop_spec q fileLines_def)
  next
    case False
    then have "take (max 1 (nat topN)) qualifying \<noteq> []" by (cases qualifying) auto
    with False f show ?thesis
      by (simp add: unusedEntries_def c unusedLoop_spec q)
  qed
  then show ?thesis
    by (simp add: cutoff_def qualifying_def Let_def)
qed

lemma length_fileLines: "length (fst (fileLines clk fs c)) = length fs"
  by (simp add: fileLines_def length_printAll)

lemma largestEntries_spec:
  "largestEntries rt results topN c =
   fileLines (rt_clock rt) (take (nat topN) (LargestFiles results)) c"
  by (simp add: largestEntries_def topLoop_printAll fileLines_def)


subsection \<open>The order of the grouped sections\<close>

lemma swo_count: "strict_weak_order (\<lambda>a b :: string \<times> int. snd b < snd a)"
  by (auto simp: strict_weak_order_def)

lemma swo_bytes: "strict_weak_order (\<lambda>a b :: string \<times> int64. snd b <s snd a)"
  by (auto simp: strict_weak_order_def word_sless_alt)

lemma printSortedMap_sorted:
  assumes "range_contract rng" and "sort_Slice_contract srt"
    and "strict_weak_order (\<lambda>a b :: string \<times> 'v. lt (snd a) (snd b))"
  shows "\<exists>ys. mset ys = mset m \<and> sorted_wrt (\<lambda>a b. \<not> lt (snd b) (snd a)) ys \<and>
           printSortedMap rng srt m topN lt format =
             map (\<lambda>kv. format (snd kv) @ '' - '' @ fst kv) (take (nat topN) ys) \<and>
           length (printSortedMap rng srt m topN lt format) = min (nat topN) (length m)"
proof -
  let ?ys = "srt (\<lambda>a b. lt (snd a) (snd b)) (rng m)"
  from assms(2,3) have "mset ?ys = mset (rng m)"
    and "sorted_wrt (\<lambda>a b. \<not> lt (snd b) (snd a)) ?ys"
    unfolding sort_Slice_contract_def by blast+
  moreover from assms(1) have "mset (rng m) = mset m"
    by (simp add: range_contract_def)
  ultimately have "mset ?ys = mset m" and "sorted_wrt (\<lambda>a b. \<not> lt (snd b) (snd a)) ?ys"
    by simp_all
  moreover from this(1) have "length ?ys = length m"
    by (rule mset_eq_length)
  ultimately show ?thesis
    by (intro exI [of _ ?ys]) (simp add: printSortedMap_take min.commute)
qed

subsection \<open>The extension of a path\<close>

lemma ext_scan_spec:
  "ext_scan r acc =
     (let seg = takeWhile (\<lambda>c. c \<noteq> CHR ''/'') r
      in if CHR ''.'' \<in> set seg
         then CHR ''.'' # rev (takeWhile (\<lambda>c. c \<noteq> CHR ''.'') seg) @ acc
         else [])"
  by (induction r arbitrary: acc) (auto simp: Let_def)

lemma lower_char_dot: "lower_char CHR ''.'' = CHR ''.''"
  by (simp add: lower_char_def)

lemma filepath_Ext_spec:
  "filepath_Ext path =
     (let name = rev (takeWhile (\<lambda>c. c \<noteq> CHR ''/'') (rev path))
      in if CHR ''.'' \<in> set name
         then CHR ''.'' # rev (takeWhile (\<lambda>c. c \<noteq> CHR ''.'') (rev name))
         else [])"
  by (simp add: filepath_Ext_def ext_scan_spec Let_def)

lemma fileExt_spec:
  assumes "ToLower_contract L"
  shows "fileExt L path =
     (let name = rev (takeWhile (\<lambda>c. c \<noteq> CHR ''/'') (rev path))
      in if CHR ''.'' \<in> set name
         then L (CHR ''.'' # rev (takeWhile (\<lambda>c. c \<noteq> CHR ''.'') (rev name)))
         else ''no_extension'')"
proof -
  from assms have "L s = [] \<longleftrightarrow> s = []" for s
    by (simp add: ToLower_contract_def)
  then show ?thesis
    by (simp add: fileExt_def filepath_Ext_spec Let_def)
qed

lemma ascii_suffix:
  assumes "ascii path"
  shows "ascii (CHR ''.'' # rev (takeWhile (\<lambda>c. c \<noteq> CHR ''.'')
           (rev (rev (takeWhile (\<lambda>c. c \<noteq> CHR ''/'') (rev path))))))"
proof -
  have "x \<in> set (takeWhile P (takeWhile Q (rev path))) \<Longrightarrow> x \<in> set path" for x P Q
    by (auto dest!: set_takeWhileD)
  with assms show ?thesis
    by (auto simp: ascii_def list_all_iff)
qed

lemma fileExt_ascii:
  assumes "ToLower_contract L" and "ascii path"
  shows "fileExt L path =
     (let name = rev (takeWhile (\<lambda>c. c \<noteq> CHR ''/'') (rev path))
      in if CHR ''.'' \<in> set name
         then map lower_char (CHR ''.'' # rev (takeWhile (\<lambda>c. c \<noteq> CHR ''.'') (rev name)))
         else ''no_extension'')"
proof -
  from assms(1) ascii_suffix [OF assms(2)]
  have "L (CHR ''.'' # rev (takeWhile (\<lambda>c. c \<noteq> CHR ''.'')
           (rev (rev (takeWhile (\<lambda>c. c \<noteq> CHR ''/'') (rev path)))))) =
        map lower_char (CHR ''.'' # rev (takeWhile (\<lambda>c. c \<noteq> CHR ''.'')
           (rev (rev (takeWhile (\<lambda>c. c \<noteq> CHR ''/'') (rev path))))))"
    unfolding ToLower_contract_def by blast
  with fileExt_spec [OF assms(1), of path] show ?thesis
    by (simp add: Let_def)
qed

lemma walkFn_ext:
  "\<forall>f \<in> set (ws_files s). Ext f = fileExt L (Path f) \<Longrightarrow>
   \<forall>f \<in> set (ws_files (snd (walkFn L D m v s))). Ext f = fileExt L (Path f)"
  by (auto simp: walkFn_def Let_def split: option.split sum.split)

lemma collected_ext:
  "\<forall>f \<in> set (ws_files (collected rt m vs)). Ext f = fileExt (rt_ToLower rt) (Path f)"
proof -
  have "\<forall>f \<in> set (ws_files s). Ext f = fileExt L (Path f) \<Longrightarrow>
        \<forall>f \<in> set (ws_files (fold (\<lambda>v s. snd (walkFn L D m v s)) vs s)).
           Ext f = fileExt L (Path f)"
    for s L D
  proof (induction vs arbitrary: s)
    case Nil
    then show ?case by simp
  next
    case (Cons v vs)
    from walkFn_ext [OF Cons.prems]
    have "\<forall>f \<in> set (ws_files (snd (walkFn L D m v s))). Ext f = fileExt L (Path f)" .
    from Cons.IH [OF this] show ?case by simp
  qed
  from this [of walk_init "rt_ToLower rt" "rt_Dir rt"] show ?thesis
    by (simp add: collected_def walk_init_def)
qed

lemma groupByExt_get:
  "groupByExt fs (cm, sm) = (cm', sm') \<Longrightarrow>
   map_get cm' k = map_get cm k + int (length (filter (\<lambda>f. Ext f = k) fs)) \<and>
   map_get sm' k = map_get sm k + sum_list (map Size (filter (\<lambda>f. Ext f = k) fs))"
proof (induction fs arbitrary: cm sm)
  case Nil
  then show ?case by simp
next
  case (Cons f fs)
  from Cons.prems
  have "groupByExt fs (map_incr cm (Ext f) 1, map_incr sm (Ext f) (Size f)) = (cm', sm')"
    by simp
  from Cons.IH [OF this] show ?case
    by (simp add: map_get_map_incr)
qed

lemma groupByExt_keys:
  "groupByExt fs (cm, sm) = (cm', sm') \<Longrightarrow>
   set (map fst cm') = set (map fst cm) \<union> Ext ` set fs \<and>
   set (map fst sm') = set (map fst sm) \<union> Ext ` set fs"
proof (induction fs arbitrary: cm sm)
  case Nil
  then show ?case by simp
next
  case (Cons f fs)
  from Cons.prems
  have "groupByExt fs (map_incr cm (Ext f) 1, map_incr sm (Ext f) (Size f)) = (cm', sm')"
    by simp
  from Cons.IH [OF this] show ?case
    by (auto simp: keys_map_incr split: if_splits)
qed

subsection \<open>The walk never returns an error\<close>

lemma main_never_WalkFailed: "run_end (main rt dir topN minSize daysUnused visits) \<noteq> WalkFailed e"
  by (simp add: main_def WalkDir_walkFn Let_def)


subsection \<open>Decimal text\<close>

lemma digit_char_digit: "n < 10 \<Longrightarrow> digit_char n \<in> set ''0123456789''"
  unfolding digit_char_def by (rule nth_mem) simp

lemma showNat_digit: "n < 10 \<Longrightarrow> showNat n = [digit_char n]"
  by (subst showNat.simps) simp

lemma showNat_digits: "set (showNat n) \<subseteq> set ''0123456789''"
proof (induction n rule: showNat.induct)
  case (1 n)
  show ?case
  proof (cases "n < 10")
    case True
    with digit_char_digit [of n] show ?thesis
      by (subst showNat.simps) simp
  next
    case False
    have "n mod 10 < 10" by simp
    from digit_char_digit [OF this] "1.IH" [OF False] False show ?thesis
      by (subst showNat.simps) simp
  qed
qed

lemma showNat_not_Nil: "showNat n \<noteq> []"
  by (subst showNat.simps) simp

subsection \<open>Rounded division\<close>

lemma rhe_div_1: "rhe_div a 1 = a"
  by (simp add: rhe_div_def)

lemma rhe_div_exact: "0 < b \<Longrightarrow> rhe_div (b * c) b = c"
  by (simp add: rhe_div_def)

lemma rhe_div_scale:
  assumes "0 < m"
  shows "rhe_div (a * m) (b * m) = rhe_div a b"
proof -
  have d: "(a * m) div (b * m) = a div b"
    using assms by simp
  have r: "(a * m) mod (b * m) = (a mod b) * m"
    by (simp add: mult_mod_left mult.commute)
  have "2 * ((a mod b) * m) < b * m \<longleftrightarrow> 2 * (a mod b) < b"
    and "b * m < 2 * ((a mod b) * m) \<longleftrightarrow> b < 2 * (a mod b)"
    using assms by (simp_all add: mult.assoc [symmetric])
  then show ?thesis
    by (simp add: rhe_div_def d r Let_def)
qed

text \<open>The result of \<open>rhe_div\<close> is within one half of the exact quotient.\<close>

lemma rhe_div_nearest:
  assumes "0 < b"
  shows "2 * (rhe_div a b * b) \<le> 2 * a + b \<and> 2 * a \<le> 2 * (rhe_div a b * b) + b"
proof -
  define k where "k = (a div b) * b"
  define r where "r = a mod b"
  have a: "a = k + r" by (simp add: k_def r_def)
  have r: "r < b" using assms by (simp add: r_def)
  have up: "(a div b + 1) * b = k + b" by (simp add: k_def)
  consider "2 * r < b" | "b < 2 * r" | "2 * r = b" by linarith
  then show ?thesis
  proof cases
    case 1
    then have "rhe_div a b * b = k" by (simp add: rhe_div_def r_def k_def)
    with a r 1 show ?thesis by simp
  next
    case 2
    then have "rhe_div a b * b = k + b"
      using up by (simp add: rhe_div_def r_def del: mult_Suc)
    with a r 2 show ?thesis by simp
  next
    case 3
    then have "rhe_div a b * b = k \<or> rhe_div a b * b = k + b"
      using up by (cases "even (a div b)") (simp_all add: rhe_div_def r_def k_def Let_def del: mult_Suc)
    with a r 3 show ?thesis by auto
  qed
qed


subsection \<open>The rounding of binary64\<close>

lemma shift_up_spec:
  assumes "0 < n" and "0 < d"
  shows "\<exists>k. shift_up n d (2 ^ j) = 2 ^ (j + k) \<and> 2 ^ 52 * d \<le> n * 2 ^ (j + k)"
  using assms
proof (induction n d "2 ^ j :: nat" arbitrary: j rule: shift_up.induct)
  case (1 n d)
  show ?case
  proof (cases "n * 2 ^ j < 2 ^ 52 * d")
    case True
    have "2 * 2 ^ j = (2 :: nat) ^ Suc j" by simp
    from "1.hyps" [OF _ this "1.prems"] True "1.prems"
    obtain k where "shift_up n d (2 ^ Suc j) = 2 ^ (Suc j + k)"
      and "2 ^ 52 * d \<le> n * 2 ^ (Suc j + k)" by auto
    with True "1.prems" show ?thesis
      by (subst shift_up.simps) (auto intro!: exI [of _ "Suc k"])
  next
    case False
    then show ?thesis
      by (subst shift_up.simps) (auto intro!: exI [of _ 0])
  qed
qed

lemma fl_small:
  assumes "0 < n" and "0 < d" and "n < 2 ^ 53 * d"
  shows "\<exists>k. fl n d = (rhe_div (n * 2 ^ k) d, 2 ^ k) \<and> 2 ^ 52 * d \<le> n * 2 ^ k"
proof -
  from shift_up_spec [OF assms(1,2), of 0]
  obtain k where "shift_up n d 1 = 2 ^ k" and "2 ^ 52 * d \<le> n * 2 ^ k" by auto
  with assms show ?thesis
    by (auto simp: fl_def Let_def)
qed

text \<open>An integer below \<open>2\<^sup>5\<^sup>3\<close> converts exactly.\<close>

lemma float64_of_exact:
  assumes "0 \<le> i" and "i < 2 ^ 53"
  shows "\<exists>k. float64_of i = (nat i * 2 ^ k, 2 ^ k)"
proof (cases "i = 0")
  case True
  then show ?thesis
    by (auto simp: float64_of_def fl_def intro!: exI [of _ 0])
next
  case False
  with assms have "0 < nat i" and "nat i < 2 ^ 53 * 1"
    by (simp_all add: nat_less_iff)
  from fl_small [OF this(1) _ this(2)] show ?thesis
    by (auto simp: float64_of_def rhe_div_def)
qed

text \<open>
  A quotient \<open>s / 2\<^sup>a\<close> with \<open>2\<^sup>a \<le> s < 2\<^sup>5\<^sup>3\<close> is a binary64 value: the division is exact,
  whatever fractions represent the operands.
\<close>

lemma fdiv_pow2_exact:
  assumes "2 ^ a \<le> s" and "s < 2 ^ 53" and "0 < p" and "0 < q"
  shows "\<exists>m. 0 < m \<and> fdiv (s * p, p) (2 ^ a * q, q) = (s * m, 2 ^ a * m)"
proof -
  let ?N = "s * p * q" and ?D = "p * (2 ^ a * q)"
  from assms have s: "0 < s" by (metis less_le_trans zero_less_numeral zero_less_power)
  with assms have N: "0 < ?N" and D: "0 < ?D" by simp_all
  have "s * (p * q) < 2 ^ 53 * (p * q)"
    using assms by simp
  also have "\<dots> \<le> 2 ^ 53 * (p * q) * 2 ^ a" by simp
  finally have lt: "?N < 2 ^ 53 * ?D" by (simp add: mult_ac)
  from fl_small [OF N D lt]
  obtain k where fl: "fl ?N ?D = (rhe_div (?N * 2 ^ k) ?D, 2 ^ k)"
    and le: "2 ^ 52 * ?D \<le> ?N * 2 ^ k" by blast
  from le have "(p * q) * (2 ^ 52 * 2 ^ a) \<le> (p * q) * (s * 2 ^ k)"
    by (simp add: mult_ac)
  with assms have "(2 :: nat) ^ 52 * 2 ^ a \<le> s * 2 ^ k" by simp
  also have "\<dots> < 2 ^ 53 * 2 ^ k" using assms by simp
  finally have "(2 :: nat) ^ (52 + a) < 2 ^ (53 + k)" by (simp add: power_add)
  then have "52 + a < 53 + k" by (simp only: power_strict_increasing_iff rel_simps)
  then have ak: "a \<le> k" by simp
  define m where "m = (2 :: nat) ^ (k - a)"
  from ak have k: "(2 :: nat) ^ k = 2 ^ a * m"
    by (simp add: m_def power_add [symmetric])
  have "?N * 2 ^ k = ?D * (s * m)"
    by (simp add: k mult_ac)
  with D have "rhe_div (?N * 2 ^ k) ?D = s * m"
    by (simp only: rhe_div_exact)
  with fl k have "fdiv (s * p, p) (2 ^ a * q, q) = (s * m, 2 ^ a * m)"
    by (simp add: fdiv_def mult_ac)
  moreover have "0 < m" by (simp add: m_def)
  ultimately show ?thesis by blast
qed

subsection \<open>formatSize\<close>

lemma sizeLoop_spec:
  assumes "1 \<le> n" and "0 < dv"
  shows "\<exists>k. sizeLoop n dv e = (dv * 1024 ^ k, e + k) \<and> 1024 ^ k \<le> n \<and> n < 1024 ^ (k + 1)"
  using assms
proof (induction n dv e rule: sizeLoop.induct)
  case (1 n dv e)
  show ?case
  proof (cases "1024 \<le> n")
    case True
    then have "1 \<le> n div 1024" by simp
    moreover from "1.prems" have "0 < dv * 1024" by simp
    ultimately obtain k where k: "sizeLoop (n div 1024) (dv * 1024) (e + 1) =
        (dv * 1024 * 1024 ^ k, e + 1 + k)"
      and lo: "1024 ^ k \<le> n div 1024" and hi: "n div 1024 < 1024 ^ (k + 1)"
      using "1.IH" [OF True] by blast
    from lo have "1024 * 1024 ^ k \<le> n" by simp
    moreover from hi have "n < 1024 * 1024 ^ (k + 1)" by simp
    ultimately show ?thesis
      using True k by (subst sizeLoop.simps) (auto intro!: exI [of _ "Suc k"])
  next
    case False
    with "1.prems" show ?thesis
      by (subst sizeLoop.simps) (auto intro!: exI [of _ 0])
  qed
qed



subsection \<open>formatTime\<close>

lemma fl_den_pos: "0 < d \<Longrightarrow> 0 < snd (fl n d)"
proof (cases "n = 0 \<or> 2 ^ 53 * d \<le> n")
  case True
  then show ?thesis by (auto simp: fl_def Let_def)
next
  case False
  assume "0 < d"
  with False fl_small [of n d] show ?thesis by auto
qed

lemma float64_of_den_pos: "0 < snd (float64_of i)"
  by (simp add: float64_of_def fl_den_pos)

lemma float64_of_num_pos: "0 < i \<Longrightarrow> i < 2 ^ 53 \<Longrightarrow> 0 < fst (float64_of i)"
  using float64_of_exact [of i] by auto

lemma fdiv_den_pos: "0 < snd x \<Longrightarrow> 0 < fst y \<Longrightarrow> 0 < snd (fdiv x y)"
  by (cases x, cases y) (simp add: fdiv_def fl_den_pos)

lemma fadd_den_pos: "0 < snd x \<Longrightarrow> 0 < snd y \<Longrightarrow> 0 < snd (fadd x y)"
  by (cases x, cases y) (simp add: fadd_def fl_den_pos)

lemma Minutes_den_pos: "0 < snd (Minutes d)"
  by (simp add: Minutes_def Let_def fadd_den_pos fdiv_den_pos float64_of_den_pos
      float64_of_num_pos)

lemma Hours_den_pos: "0 < snd (Hours d)"
  by (simp add: Hours_def Let_def fadd_den_pos fdiv_den_pos float64_of_den_pos
      float64_of_num_pos)

lemma fmt_f0_nearest:
  assumes "0 < snd x"
  shows "\<exists>N. fmt_f0 x = showNat N \<and> nearest N x"
proof -
  obtain n d where x: "x = (n, d)" by (cases x)
  with assms rhe_div_nearest [of d n] show ?thesis
    by (auto simp: fmt_f0_def nearest_def)
qed

lemma formatTime_unknown: "fst (formatTime clk c 0) = ''unknown''"
  by (simp add: formatTime_def IsZero_def)

lemma formatTime_cases:
  assumes "t \<noteq> 0"
  shows "fst (formatTime clk c t) =
     (let diff = Sub (clk c) t
      in if diff < Minute then ''just now''
         else if diff < Hour then fmt_f0 (Minutes diff) @ '' minutes ago''
         else if diff < 24 * Hour then fmt_f0 (Hours diff) @ '' hours ago''
         else if diff < 30 * 24 * Hour then
           fmt_f0 (fdiv (Hours diff) (float64_of 24)) @ '' days ago''
         else if diff < 365 * 24 * Hour then
           fmt_f0 (fdiv (fdiv (Hours diff) (float64_of 24)) (float64_of 30)) @ '' months ago''
         else
           fmt_f0 (fdiv (fdiv (Hours diff) (float64_of 24)) (float64_of 365)) @ '' years ago'')"
  using assms by (simp add: formatTime_def IsZero_def Let_def)

lemmas time_eval =
  formatTime_def IsZero_def Sub_def maxDuration_def minDuration_def Minute_def Hour_def
  Minutes_def Hours_def fmt_f0_def fdiv_def fadd_def float64_of_def fl_def
  shift_up.simps shift_down.simps rhe_div_def showNat.simps digit_char_def Let_def
  exampleNow_def stoppedClock_def

lemma formatTime_examples:
  "fst (formatTime stoppedClock 0 (exampleNow - 30000000000)) = ''just now''"
  "fst (formatTime stoppedClock 0 (exampleNow - 5400000000000)) = ''2 hours ago''"
  "fst (formatTime stoppedClock 0 (exampleNow - 9000000000000)) = ''2 hours ago''"
  "fst (formatTime stoppedClock 0 (exampleNow - 31449600000000000)) = ''12 months ago''"
  "fst (formatTime stoppedClock 0 (exampleNow - 34560000000000000)) = ''1 years ago''"
  by (simp_all add: time_eval)


subsection \<open>The accuracy of binary64 arithmetic\<close>

lemma rhe_div_real:
  assumes "0 < b"
  shows "\<bar>real (rhe_div a b) - real a / real b\<bar> \<le> 1 / 2"
proof -
  define R where "R = rhe_div a b"
  from rhe_div_nearest [OF assms, of a]
  have "2 * (R * b) \<le> 2 * a + b" and "2 * a \<le> 2 * (R * b) + b"
    by (simp_all add: R_def)
  then have "real (2 * (R * b)) \<le> real (2 * a + b)" and "real (2 * a) \<le> real (2 * (R * b) + b)"
    by (simp_all only: of_nat_le_iff)
  then have "2 * (real R * real b) \<le> 2 * real a + real b"
    and "2 * real a \<le> 2 * (real R * real b) + real b"
    by simp_all
  moreover from assms have "0 < real b" by simp
  ultimately have "real R - real a / real b \<le> 1 / 2" and "real a / real b - real R \<le> 1 / 2"
    by (simp_all add: field_simps)
  then show ?thesis
    unfolding R_def by linarith
qed

lemma nearest_real: "nearest N x \<Longrightarrow> \<bar>real N - fval x\<bar> \<le> 1 / 2"
proof -
  assume a: "nearest N x"
  obtain n d where x: "x = (n, d)" by (cases x)
  from a x have d: "0 < d" and "2 * (N * d) \<le> 2 * n + d" and "2 * n \<le> 2 * (N * d) + d"
    by (simp_all add: nearest_def)
  then have "real (2 * (N * d)) \<le> real (2 * n + d)" and "real (2 * n) \<le> real (2 * (N * d) + d)"
    by (simp_all only: of_nat_le_iff)
  then have "2 * (real N * real d) \<le> 2 * real n + real d"
    and "2 * real n \<le> 2 * (real N * real d) + real d"
    by simp_all
  moreover from d have "0 < real d" by simp
  ultimately have "real N - real n / real d \<le> 1 / 2" and "real n / real d - real N \<le> 1 / 2"
    by (simp_all add: field_simps)
  then have "\<bar>real N - real n / real d\<bar> \<le> 1 / 2"
    by linarith
  then show ?thesis
    by (simp only: fval_def x fst_conv snd_conv)
qed

lemma shift_down_spec:
  assumes "0 < d"
  shows "\<exists>k. shift_down n d (2 ^ j) = 2 ^ (j + k) \<and> n < 2 ^ 53 * d * 2 ^ (j + k) \<and>
           (n < 2 ^ 53 * d * 2 ^ j \<longrightarrow> k = 0) \<and>
           (2 ^ 53 * d * 2 ^ j \<le> n \<longrightarrow> 2 ^ 52 * d * 2 ^ (j + k) \<le> n)"
  using assms
proof (induction n d "2 ^ j :: nat" arbitrary: j rule: shift_down.induct)
  case (1 n d)
  show ?case
  proof (cases "2 ^ 53 * d * 2 ^ j \<le> n")
    case True
    have "2 * 2 ^ j = (2 :: nat) ^ Suc j" by simp
    from "1.hyps" [OF _ this "1.prems"] True "1.prems"
    obtain k where r: "shift_down n d (2 ^ Suc j) = 2 ^ (Suc j + k)"
      and hi: "n < 2 ^ 53 * d * 2 ^ (Suc j + k)"
      and z: "n < 2 ^ 53 * d * 2 ^ Suc j \<longrightarrow> k = 0"
      and lo: "2 ^ 53 * d * 2 ^ Suc j \<le> n \<longrightarrow> 2 ^ 52 * d * 2 ^ (Suc j + k) \<le> n"
      by auto
    have "2 ^ 52 * d * 2 ^ (Suc j + k) \<le> n"
    proof (cases "2 ^ 53 * d * 2 ^ Suc j \<le> n")
      case True
      with lo show ?thesis by blast
    next
      case False
      with z have "k = 0" by simp
      with True show ?thesis by simp
    qed
    with True r hi "1.prems" show ?thesis
      by (subst shift_down.simps) (auto intro!: exI [of _ "Suc k"])
  next
    case False
    then show ?thesis
      by (subst shift_down.simps) (auto intro!: exI [of _ 0])
  qed
qed

lemma fl_big:
  assumes "0 < d" and "2 ^ 53 * d \<le> n"
  shows "\<exists>k. fl n d = (rhe_div n (d * 2 ^ k) * 2 ^ k, 1) \<and> 2 ^ 52 * d * 2 ^ k \<le> n"
proof -
  from shift_down_spec [OF assms(1), of n 0] assms(2)
  obtain k where "shift_down n d 1 = 2 ^ k" and "2 ^ 52 * d * 2 ^ k \<le> n" by auto
  moreover from assms have "n \<noteq> 0" by auto
  ultimately show ?thesis
    using assms by (auto simp: fl_def Let_def)
qed

text \<open>Rounding changes a value by at most the fraction \<open>2\<^sup>-\<^sup>5\<^sup>3\<close> of it.\<close>

lemma fl_rel:
  assumes "0 < d"
  shows "\<bar>fval (fl n d) - real n / real d\<bar> \<le> (real n / real d) / 2 ^ 53"
proof -
  from assms have d: "0 < real d" by simp
  consider "n = 0" | "0 < n" "n < 2 ^ 53 * d" | "2 ^ 53 * d \<le> n" by linarith
  then show ?thesis
  proof cases
    case 1
    then show ?thesis by (simp add: fl_def fval_def)
  next
    case 2
    from fl_small [OF 2(1) assms 2(2)]
    obtain k where fl: "fl n d = (rhe_div (n * 2 ^ k) d, 2 ^ k)"
      and le: "2 ^ 52 * d \<le> n * 2 ^ k" by blast
    define p :: real where "p = 2 ^ k"
    define R where "R = real (rhe_div (n * 2 ^ k) d)"
    have p: "0 < p" by (simp add: p_def)
    from rhe_div_real [OF assms, of "n * 2 ^ k"]
    have "\<bar>R - real n * p / real d\<bar> \<le> 1 / 2"
      by (simp add: R_def p_def)
    then have "\<bar>R - real n * p / real d\<bar> / p \<le> (1 / 2) / p"
      by (rule divide_right_mono) (simp add: p less_imp_le)
    moreover have "\<bar>R - real n * p / real d\<bar> / p = \<bar>R / p - real n / real d\<bar>"
    proof -
      have "(R - real n * p / real d) / p = R / p - real n / real d"
        using p by (simp add: diff_divide_distrib)
      then have "\<bar>R / p - real n / real d\<bar> = \<bar>(R - real n * p / real d) / p\<bar>"
        by simp
      also have "\<dots> = \<bar>R - real n * p / real d\<bar> / \<bar>p\<bar>"
        by (rule abs_divide)
      finally show ?thesis using p by simp
    qed
    ultimately have e: "\<bar>R / p - real n / real d\<bar> \<le> 1 / (2 * p)" by simp
    from le have "real (2 ^ 52 * d) \<le> real (n * 2 ^ k)" by (simp only: of_nat_le_iff)
    then have "2 ^ 52 * real d \<le> real n * p" by (simp add: p_def)
    with p d have "1 / (2 * p) \<le> (real n / real d) / 2 ^ 53"
      by (simp add: field_simps)
    with e show ?thesis
      by (simp add: fl fval_def R_def p_def)
  next
    case 3
    from fl_big [OF assms 3]
    obtain k where fl: "fl n d = (rhe_div n (d * 2 ^ k) * 2 ^ k, 1)"
      and le: "2 ^ 52 * d * 2 ^ k \<le> n" by blast
    define p :: real where "p = 2 ^ k"
    define R where "R = real (rhe_div n (d * 2 ^ k))"
    have p: "0 < p" by (simp add: p_def)
    from assms have "0 < d * 2 ^ k" by simp
    from rhe_div_real [OF this, of n]
    have "\<bar>R - real n / (real d * p)\<bar> \<le> 1 / 2"
      by (simp add: R_def p_def)
    then have "\<bar>R - real n / (real d * p)\<bar> * p \<le> (1 / 2) * p"
      by (rule mult_right_mono) (simp add: p less_imp_le)
    moreover have "\<bar>R - real n / (real d * p)\<bar> * p = \<bar>R * p - real n / real d\<bar>"
    proof -
      have "(R - real n / (real d * p)) * p = R * p - real n / real d"
        using p by (simp add: left_diff_distrib)
      then have "\<bar>R * p - real n / real d\<bar> = \<bar>(R - real n / (real d * p)) * p\<bar>"
        by simp
      also have "\<dots> = \<bar>R - real n / (real d * p)\<bar> * \<bar>p\<bar>"
        by (rule abs_mult)
      finally show ?thesis using p by simp
    qed
    ultimately have e: "\<bar>R * p - real n / real d\<bar> \<le> p / 2" by simp
    from le have "real (2 ^ 52 * d * 2 ^ k) \<le> real n" by (simp only: of_nat_le_iff)
    then have "2 ^ 52 * real d * p \<le> real n" by (simp add: p_def)
    with p d have "p / 2 \<le> (real n / real d) / 2 ^ 53"
      by (simp add: field_simps)
    with e show ?thesis
      by (simp add: fl fval_def R_def p_def)
  qed
qed

lemma fval_float64_of: "0 \<le> i \<Longrightarrow> i < 2 ^ 53 \<Longrightarrow> fval (float64_of i) = real_of_int i"
  using float64_of_exact [of i] by (auto simp: fval_def)

lemma fdiv_rel:
  assumes "0 < snd x" and "0 < fst y" and "0 < snd y"
  shows "\<bar>fval (fdiv x y) - fval x / fval y\<bar> \<le> (fval x / fval y) / 2 ^ 53"
proof -
  obtain n1 d1 n2 d2 where x: "x = (n1, d1)" and y: "y = (n2, d2)"
    by (cases x, cases y)
  from assms x y have d: "0 < d1 * n2" by simp
  from assms x y have e: "real (n1 * d2) / real (d1 * n2) = fval x / fval y"
    by (simp add: fval_def field_simps)
  have f: "fdiv x y = fl (n1 * d2) (d1 * n2)"
    by (simp add: fdiv_def x y)
  from fl_rel [OF d, of "n1 * d2"] show ?thesis
    unfolding f e .
qed

lemma fadd_rel:
  assumes "0 < snd x" and "0 < snd y"
  shows "\<bar>fval (fadd x y) - (fval x + fval y)\<bar> \<le> (fval x + fval y) / 2 ^ 53"
proof -
  obtain n1 d1 n2 d2 where x: "x = (n1, d1)" and y: "y = (n2, d2)"
    by (cases x, cases y)
  from assms x y have d: "0 < d1 * d2" by simp
  from assms x y have e: "real (n1 * d2 + n2 * d1) / real (d1 * d2) = fval x + fval y"
    by (simp add: fval_def field_simps)
  have f: "fadd x y = fl (n1 * d2 + n2 * d1) (d1 * d2)"
    by (simp add: fadd_def x y)
  from fl_rel [OF d, of "n1 * d2 + n2 * d1"] show ?thesis
    unfolding f e .
qed

text \<open>
  One more rounding after a value that is accurate to the fraction \<open>a\<close> gives a value
  accurate to the fraction \<open>a + 2\<^sup>-\<^sup>5\<^sup>2\<close>.
\<close>

lemma rel_step:
  fixes y y' z a :: real
  assumes "0 \<le> y" and "\<bar>y' - y\<bar> \<le> a * y" and "0 \<le> a" and "a \<le> 1"
    and "\<bar>z - y'\<bar> \<le> y' / 2 ^ 53"
  shows "\<bar>z - y\<bar> \<le> (a + 1 / 2 ^ 52) * y"
proof -
  from assms(1,3,4) have "a * y \<le> y" by (simp add: mult_left_le_one_le)
  with assms(2) have "y' \<le> 2 * y" by linarith
  then have "y' / 2 ^ 53 \<le> y / 2 ^ 52" by simp
  with assms(2,5) have "\<bar>z - y\<bar> \<le> a * y + y / 2 ^ 52" by linarith
  then show ?thesis by (simp add: algebra_simps)
qed


text \<open>
  \<open>Duration.Minutes\<close> and \<open>Duration.Hours\<close> are accurate to the fraction \<open>2\<^sup>-\<^sup>5\<^sup>1\<close> of the
  exact number of minutes and hours; each further division adds \<open>2\<^sup>-\<^sup>5\<^sup>2\<close>.
\<close>

lemma unit_count_rel:
  assumes "0 \<le> d" and "0 < u" and "u < 2 ^ 53" and "d div u < 2 ^ 53"
  shows "\<bar>fval (fadd (float64_of (d div u)) (fdiv (float64_of (d mod u)) (float64_of u)))
           - real_of_int d / real_of_int u\<bar>
         \<le> (2 / 2 ^ 52) * (real_of_int d / real_of_int u)"
proof -
  define q where "q = d div u"
  define r where "r = d mod u"
  define U where "U = real_of_int u"
  define H where "H = real_of_int d / U"
  define frac where "frac = real_of_int r / U"
  have d: "d = q * u + r" by (simp add: q_def r_def)
  from assms have r: "0 \<le> r" "r < u" by (simp_all add: r_def)
  from assms have q: "0 \<le> q" by (simp add: q_def pos_imp_zdiv_nonneg_iff)
  from assms have U: "0 < U" by (simp add: U_def)
  have "real_of_int d = real_of_int q * U + real_of_int r"
    unfolding U_def by (subst d) simp
  with U have H: "H = real_of_int q + frac"
    by (simp add: H_def frac_def field_simps)
  from r U have frac: "0 \<le> frac" by (simp add: frac_def)
  with q H have "frac \<le> H" and H0: "0 \<le> H" by simp_all
  define x1 where "x1 = float64_of q"
  define x2 where "x2 = fdiv (float64_of r) (float64_of u)"
  from q assms(4) have v1: "fval x1 = real_of_int q"
    by (simp add: x1_def q_def fval_float64_of)
  from r assms(3) have vr: "fval (float64_of r) = real_of_int r"
    by (simp add: fval_float64_of)
  from assms have vu: "fval (float64_of u) = U"
    by (simp add: fval_float64_of U_def)
  from assms have pu: "0 < fst (float64_of u)"
    by (simp add: float64_of_num_pos)
  from fdiv_rel [OF float64_of_den_pos pu float64_of_den_pos, of r]
  have e2: "\<bar>fval x2 - frac\<bar> \<le> frac / 2 ^ 53"
    by (simp add: x2_def vr vu frac_def)
  have p2: "0 < snd x2"
    unfolding x2_def by (rule fdiv_den_pos [OF float64_of_den_pos pu])
  have p1: "0 < snd x1"
    unfolding x1_def by (rule float64_of_den_pos)
  from \<open>frac \<le> H\<close> have "frac / 2 ^ 53 \<le> H / 2 ^ 53" by (simp add: divide_right_mono)
  also from H0 have "\<dots> \<le> (1 / 2 ^ 52) * H" by simp
  finally have "frac / 2 ^ 53 \<le> (1 / 2 ^ 52) * H" .
  with e2 H have a: "\<bar>(fval x1 + fval x2) - H\<bar> \<le> (1 / 2 ^ 52) * H"
    by (simp add: v1)
  from rel_step [OF H0 a _ _ fadd_rel [OF p1 p2]]
  have "\<bar>fval (fadd x1 x2) - H\<bar> \<le> (1 / 2 ^ 52 + 1 / 2 ^ 52) * H"
    by simp
  then show ?thesis
    by (simp add: x1_def x2_def q_def r_def H_def U_def)
qed

lemma Minutes_rel:
  assumes "0 \<le> d" and "d < 2 ^ 63"
  shows "\<bar>fval (Minutes d) - real_of_int d / real_of_int Minute\<bar>
         \<le> (2 / 2 ^ 52) * (real_of_int d / real_of_int Minute)"
proof -
  from assms have "d div 60000000000 < 2 ^ 53" by simp
  from unit_count_rel [OF assms(1) _ _ this] show ?thesis
    by (simp add: Minutes_def Minute_def Let_def)
qed

lemma Hours_rel:
  assumes "0 \<le> d" and "d < 2 ^ 63"
  shows "\<bar>fval (Hours d) - real_of_int d / real_of_int Hour\<bar>
         \<le> (2 / 2 ^ 52) * (real_of_int d / real_of_int Hour)"
proof -
  from assms have "d div 3600000000000 < 2 ^ 53" by simp
  from unit_count_rel [OF assms(1) _ _ this] show ?thesis
    by (simp add: Hours_def Hour_def Let_def)
qed

lemma fdiv_const_rel:
  assumes "0 \<le> y" and "\<bar>fval x - y\<bar> \<le> a * y" and "0 \<le> a" and "a \<le> 1"
    and "0 < snd x" and "0 < c" and "c < 2 ^ 53"
  shows "0 < snd (fdiv x (float64_of c)) \<and>
         \<bar>fval (fdiv x (float64_of c)) - y / real_of_int c\<bar>
           \<le> (a + 1 / 2 ^ 52) * (y / real_of_int c)"
proof -
  define C where "C = real_of_int c"
  from assms have C: "0 < C" by (simp add: C_def)
  from assms have vc: "fval (float64_of c) = C"
    by (simp add: fval_float64_of C_def)
  from assms have pc: "0 < fst (float64_of c)"
    by (simp add: float64_of_num_pos)
  from fdiv_rel [OF assms(5) pc float64_of_den_pos]
  have e: "\<bar>fval (fdiv x (float64_of c)) - fval x / C\<bar> \<le> (fval x / C) / 2 ^ 53"
    by (simp add: vc)
  have "fval x / C - y / C = (fval x - y) / C"
    by (simp add: diff_divide_distrib)
  then have "\<bar>fval x / C - y / C\<bar> = \<bar>fval x - y\<bar> / C"
    using C by simp
  also from assms(2) C have "\<dots> \<le> (a * y) / C"
    by (simp add: divide_right_mono)
  finally have a: "\<bar>fval x / C - y / C\<bar> \<le> a * (y / C)" by simp
  from assms(1) C have "0 \<le> y / C" by simp
  from rel_step [OF this a assms(3,4) e] fdiv_den_pos [OF assms(5) pc]
  show ?thesis by (simp add: C_def)
qed

text \<open>
  With at most four roundings and fewer than 1024 units, the value printed is an
  integer within \<open>1/2 + 2\<^sup>-\<^sup>4\<^sup>0\<close> of the exact number of units.
\<close>

lemma nearest_exact:
  assumes "nearest N x" and "\<bar>fval x - q\<bar> \<le> a * q" and "0 \<le> q" and "q \<le> 1024"
    and "0 \<le> a" and "a \<le> 4 / 2 ^ 52"
  shows "\<bar>real N - q\<bar> \<le> 1 / 2 + 1 / 2 ^ 40"
proof -
  from assms(6,3) have "a * q \<le> (4 / 2 ^ 52) * q"
    by (rule mult_right_mono)
  also from assms(4) have "\<dots> \<le> (4 / 2 ^ 52) * 1024"
    by (rule mult_left_mono) simp
  finally have "a * q \<le> 1 / 2 ^ 40" by simp
  with assms(2) nearest_real [OF assms(1)] show ?thesis
    by linarith
qed

lemma Sub_bounds: "Sub t u < 2 ^ 63" "- (2 ^ 63) \<le> Sub t u"
  by (simp_all add: Sub_def maxDuration_def minDuration_def)

lemma Sub_exact:
  "- (2 ^ 63) \<le> t - u \<Longrightarrow> t - u < 2 ^ 63 \<Longrightarrow> Sub t u = t - u"
  by (simp add: Sub_def maxDuration_def minDuration_def)


lemma minutes_exact:
  assumes "0 \<le> d" and "d < Hour" and "nearest N (Minutes d)"
  shows "\<bar>real N - real_of_int d / real_of_int Minute\<bar> \<le> 1 / 2 + 1 / 2 ^ 40"
proof -
  from assms have d63: "d < 2 ^ 63" by (simp add: Hour_def)
  from assms(2) have "real_of_int d < 3600000000000"
    unfolding Hour_def by linarith
  with assms(1) have q: "0 \<le> real_of_int d / real_of_int Minute"
    "real_of_int d / real_of_int Minute \<le> 1024"
    by (simp_all add: Minute_def)
  from nearest_exact [OF assms(3) Minutes_rel [OF assms(1) d63] q] show ?thesis
    by simp
qed

lemma hours_exact:
  assumes "0 \<le> d" and "d < 24 * Hour" and "nearest N (Hours d)"
  shows "\<bar>real N - real_of_int d / real_of_int Hour\<bar> \<le> 1 / 2 + 1 / 2 ^ 40"
proof -
  from assms have d63: "d < 2 ^ 63" by (simp add: Hour_def)
  from assms(2) have "real_of_int d < 86400000000000"
    unfolding Hour_def by linarith
  with assms(1) have q: "0 \<le> real_of_int d / real_of_int Hour"
    "real_of_int d / real_of_int Hour \<le> 1024"
    by (simp_all add: Hour_def)
  from nearest_exact [OF assms(3) Hours_rel [OF assms(1) d63] q] show ?thesis
    by simp
qed

lemma days_rel:
  assumes "0 \<le> d" and "d < 2 ^ 63"
  shows "0 < snd (fdiv (Hours d) (float64_of 24)) \<and>
         \<bar>fval (fdiv (Hours d) (float64_of 24)) - real_of_int d / real_of_int (24 * Hour)\<bar>
           \<le> (3 / 2 ^ 52) * (real_of_int d / real_of_int (24 * Hour))"
proof -
  from assms(1) have "0 \<le> real_of_int d / real_of_int Hour"
    by (simp add: Hour_def)
  from fdiv_const_rel [OF this Hours_rel [OF assms] _ _ Hours_den_pos, of 24]
  show ?thesis by (simp add: Hour_def)
qed

lemma days_exact:
  assumes "0 \<le> d" and "d < 30 * 24 * Hour" and "nearest N (fdiv (Hours d) (float64_of 24))"
  shows "\<bar>real N - real_of_int d / real_of_int (24 * Hour)\<bar> \<le> 1 / 2 + 1 / 2 ^ 40"
proof -
  from assms have d63: "d < 2 ^ 63" by (simp add: Hour_def)
  from assms(2) have "real_of_int d < 2592000000000000"
    unfolding Hour_def by linarith
  with assms(1) have q: "0 \<le> real_of_int d / real_of_int (24 * Hour)"
    "real_of_int d / real_of_int (24 * Hour) \<le> 1024"
    by (simp_all add: Hour_def)
  from days_rel [OF assms(1) d63]
  have "\<bar>fval (fdiv (Hours d) (float64_of 24)) - real_of_int d / real_of_int (24 * Hour)\<bar>
           \<le> (3 / 2 ^ 52) * (real_of_int d / real_of_int (24 * Hour))" by blast
  from nearest_exact [OF assms(3) this q] show ?thesis
    by simp
qed

lemma months_exact:
  assumes "0 \<le> d" and "d < 365 * 24 * Hour"
    and "nearest N (fdiv (fdiv (Hours d) (float64_of 24)) (float64_of 30))"
  shows "\<bar>real N - real_of_int d / real_of_int (30 * 24 * Hour)\<bar> \<le> 1 / 2 + 1 / 2 ^ 40"
proof -
  from assms have d63: "d < 2 ^ 63" by (simp add: Hour_def)
  from assms(2) have "real_of_int d < 31536000000000000"
    unfolding Hour_def by linarith
  with assms(1) have q: "0 \<le> real_of_int d / real_of_int (30 * 24 * Hour)"
    "real_of_int d / real_of_int (30 * 24 * Hour) \<le> 1024"
    by (simp_all add: Hour_def)
  from assms(1) have y: "0 \<le> real_of_int d / real_of_int (24 * Hour)"
    by (simp add: Hour_def)
  from days_rel [OF assms(1) d63]
  have p: "0 < snd (fdiv (Hours d) (float64_of 24))"
    and e: "\<bar>fval (fdiv (Hours d) (float64_of 24)) - real_of_int d / real_of_int (24 * Hour)\<bar>
           \<le> (3 / 2 ^ 52) * (real_of_int d / real_of_int (24 * Hour))" by blast+
  from fdiv_const_rel [OF y e _ _ p, of 30]
  have "\<bar>fval (fdiv (fdiv (Hours d) (float64_of 24)) (float64_of 30))
          - real_of_int d / real_of_int (30 * 24 * Hour)\<bar>
        \<le> (4 / 2 ^ 52) * (real_of_int d / real_of_int (30 * 24 * Hour))"
    by (simp add: Hour_def)
  from nearest_exact [OF assms(3) this q] show ?thesis
    by simp
qed

lemma years_exact:
  assumes "0 \<le> d" and "d < 2 ^ 63"
    and "nearest N (fdiv (fdiv (Hours d) (float64_of 24)) (float64_of 365))"
  shows "\<bar>real N - real_of_int d / real_of_int (365 * 24 * Hour)\<bar> \<le> 1 / 2 + 1 / 2 ^ 40"
proof -
  from assms(2) have "d < 9223372036854775808" by simp
  then have "real_of_int d < 9223372036854775808"
    by linarith
  with assms(1) have q: "0 \<le> real_of_int d / real_of_int (365 * 24 * Hour)"
    "real_of_int d / real_of_int (365 * 24 * Hour) \<le> 1024"
    by (simp_all add: Hour_def)
  from assms(1) have y: "0 \<le> real_of_int d / real_of_int (24 * Hour)"
    by (simp add: Hour_def)
  from days_rel [OF assms(1,2)]
  have p: "0 < snd (fdiv (Hours d) (float64_of 24))"
    and e: "\<bar>fval (fdiv (Hours d) (float64_of 24)) - real_of_int d / real_of_int (24 * Hour)\<bar>
           \<le> (3 / 2 ^ 52) * (real_of_int d / real_of_int (24 * Hour))" by blast+
  from fdiv_const_rel [OF y e _ _ p, of 365]
  have "\<bar>fval (fdiv (fdiv (Hours d) (float64_of 24)) (float64_of 365))
          - real_of_int d / real_of_int (365 * 24 * Hour)\<bar>
        \<le> (4 / 2 ^ 52) * (real_of_int d / real_of_int (365 * 24 * Hour))"
    by (simp add: Hour_def)
  from nearest_exact [OF assms(3) this q] show ?thesis
    by simp
qed


subsection \<open>The accuracy of formatSize\<close>

lemma float64_of_rel:
  assumes "0 \<le> i"
  shows "\<bar>fval (float64_of i) - real_of_int i\<bar> \<le> real_of_int i / 2 ^ 53"
  using assms fl_rel [of 1 "nat i"] by (simp add: float64_of_def)

lemma float64_of_unit:
  assumes "e < 6"
  shows "fval (float64_of (1024 * 1024 ^ e)) = 1024 * 1024 ^ e \<and>
         0 < fst (float64_of (1024 * 1024 ^ e))"
proof (cases "e < 5")
  case True
  then have "(1024 :: int) ^ (e + 1) \<le> 1024 ^ 5"
    by (intro power_increasing) simp_all
  then have "(1024 :: int) * 1024 ^ e < 2 ^ 53" by simp
  then show ?thesis
    by (simp add: fval_float64_of float64_of_num_pos)
next
  case False
  with assms have "e = 5" by simp
  then show ?thesis
    by (simp add: fval_def float64_of_def fl_def shift_down.simps rhe_div_def Let_def)
qed

lemma size_quotient_rel:
  assumes "0 \<le> s" and "e < 6" and "s < 1024 ^ (e + 2)"
  shows "0 < snd (fdiv (float64_of s) (float64_of (1024 * 1024 ^ e))) \<and>
         \<bar>fval (fdiv (float64_of s) (float64_of (1024 * 1024 ^ e)))
            - real_of_int s / 1024 ^ (e + 1)\<bar> \<le> 1 / 2 ^ 41"
proof -
  define U :: real where "U = 1024 * 1024 ^ e"
  define y where "y = real_of_int s / U"
  have U: "0 < U" by (simp add: U_def)
  from float64_of_unit [OF assms(2)]
  have vu: "fval (float64_of (1024 * 1024 ^ e)) = U"
    and pu: "0 < fst (float64_of (1024 * 1024 ^ e))"
    by (simp_all add: U_def)
  from assms(1) U have y0: "0 \<le> y" by (simp add: y_def)
  from assms(3) have "real_of_int s < real_of_int (1024 ^ (e + 2))"
    by (simp only: of_int_less_iff)
  then have "real_of_int s < 1024 * U" by (simp add: U_def)
  with U have y1: "y \<le> 1024" by (simp add: y_def field_simps)
  have "fval (float64_of s) / U - y = (fval (float64_of s) - real_of_int s) / U"
    by (simp add: y_def diff_divide_distrib)
  then have "\<bar>fval (float64_of s) / U - y\<bar> = \<bar>fval (float64_of s) - real_of_int s\<bar> / U"
    using U by simp
  also have "\<dots> \<le> (real_of_int s / 2 ^ 53) / U"
    by (rule divide_right_mono [OF float64_of_rel [OF assms(1)]]) (simp add: U less_imp_le)
  finally have a: "\<bar>fval (float64_of s) / U - y\<bar> \<le> (1 / 2 ^ 53) * y"
    by (simp add: y_def)
  from fdiv_rel [OF float64_of_den_pos pu float64_of_den_pos, of s]
  have e: "\<bar>fval (fdiv (float64_of s) (float64_of (1024 * 1024 ^ e))) - fval (float64_of s) / U\<bar>
           \<le> (fval (float64_of s) / U) / 2 ^ 53"
    by (simp add: vu)
  from rel_step [OF y0 a _ _ e]
  have "\<bar>fval (fdiv (float64_of s) (float64_of (1024 * 1024 ^ e))) - y\<bar>
        \<le> (1 / 2 ^ 53 + 1 / 2 ^ 52) * y" by simp
  also from y0 have "\<dots> \<le> (2 / 2 ^ 52) * y"
    by (intro mult_right_mono) simp_all
  also from y1 have "\<dots> \<le> (2 / 2 ^ 52) * 1024"
    by (intro mult_left_mono) simp_all
  finally have "\<bar>fval (fdiv (float64_of s) (float64_of (1024 * 1024 ^ e))) - y\<bar> \<le> 1 / 2 ^ 41"
    by simp
  with fdiv_den_pos [OF float64_of_den_pos pu, of s] show ?thesis
    by (simp add: y_def U_def)
qed

lemma tenths_real:
  assumes "0 < d"
  shows "\<bar>real (rhe_div (10 * n) d) / 10 - fval (n, d)\<bar> \<le> 1 / 20"
proof -
  define R where "R = real (rhe_div (10 * n) d)"
  define v where "v = real n / real d"
  from rhe_div_real [OF assms, of "10 * n"]
  have "\<bar>R - 10 * v\<bar> \<le> 1 / 2" by (simp add: R_def v_def)
  then have "\<bar>R / 10 - v\<bar> \<le> 1 / 20" by linarith
  then show ?thesis
    by (simp only: R_def v_def fval_def fst_conv snd_conv)
qed

lemma formatSize_accuracy:
  assumes "1024 \<le> sint sz" and "e < 6" and "sint sz < 1024 ^ (e + 2)"
    and "fdiv (float64_of (sint sz)) (float64_of (1024 * 1024 ^ e)) = (n, d)"
  shows "\<bar>real (rhe_div (10 * n) d) / 10 - real_of_int (sint sz) / 1024 ^ (e + 1)\<bar>
         \<le> 1 / 20 + 1 / 2 ^ 41"
proof -
  from assms(1) have "0 \<le> sint sz" by simp
  from size_quotient_rel [OF this assms(2,3)] assms(4)
  have d: "0 < d" and "\<bar>fval (n, d) - real_of_int (sint sz) / 1024 ^ (e + 1)\<bar> \<le> 1 / 2 ^ 41"
    by simp_all
  with tenths_real [OF d, of n] show ?thesis
    by linarith
qed


lemma fmt_f1_shape:
  "\<exists>tenths. fmt_f1 (n, d) = showNat (tenths div 10) @ ''.'' @ [digit_char (tenths mod 10)] \<and>
     tenths = rhe_div (10 * n) d"
  by (simp add: fmt_f1_def Let_def showNat_digit)

lemma formatSize_small:
  "sint sz < 1024 \<Longrightarrow> formatSize sz = showInt (sint sz) @ '' B''"
  by (simp add: formatSize_def)

lemma formatSize_large:
  assumes "1024 \<le> sint sz"
  shows "\<exists>e tenths. e < 6 \<and> 1024 ^ (e + 1) \<le> sint sz \<and> sint sz < 1024 ^ (e + 2) \<and>
           formatSize sz = showNat (tenths div 10) @ ''.'' @ [digit_char (tenths mod 10)]
                           @ '' '' @ [''KMGTPE'' ! e] @ ''iB'' \<and>
           \<bar>real tenths / 10 - real_of_int (sint sz) / 1024 ^ (e + 1)\<bar> \<le> 1 / 20 + 1 / 2 ^ 41 \<and>
           (sint sz < 2 ^ 53 \<longrightarrow> tenths = rhe_div (10 * nat (sint sz)) (1024 ^ (e + 1)))"
proof -
  let ?s = "sint sz"
  from assms have "1 \<le> ?s div 1024" by simp
  from sizeLoop_spec [OF this, of 1024 0]
  obtain e where loop: "sizeLoop (?s div 1024) 1024 0 = (1024 * 1024 ^ e, e)"
    and lo: "1024 ^ e \<le> ?s div 1024" and hi: "?s div 1024 < 1024 ^ (e + 1)"
    by auto
  from lo have lo': "1024 ^ (e + 1) \<le> ?s" by simp
  from hi have hi': "?s < 1024 ^ (e + 2)" by simp
  have "?s < 2 ^ 63"
    using sint_lt [of sz] by simp
  with lo' have "(1024 :: int) ^ (e + 1) < 1024 ^ 7" by simp
  then have "e + 1 < 7" by (simp only: power_strict_increasing_iff rel_simps)
  then have e: "e < 6" by simp
  obtain n d where x: "fdiv (float64_of ?s) (float64_of (1024 * 1024 ^ e)) = (n, d)"
    by (cases "fdiv (float64_of ?s) (float64_of (1024 * 1024 ^ e))")
  define tenths where "tenths = rhe_div (10 * n) d"
  from assms loop x have fmt: "formatSize sz =
      showNat (tenths div 10) @ ''.'' @ [digit_char (tenths mod 10)]
      @ '' '' @ [''KMGTPE'' ! e] @ ''iB''"
    using fmt_f1_shape [of n d] by (simp add: formatSize_def tenths_def)
  have "tenths = rhe_div (10 * nat ?s) (1024 ^ (e + 1))" if small: "?s < 2 ^ 53"
  proof -
    let ?a = "10 * (e + 1)"
    have "(1024 :: nat) ^ (e + 1) = (2 ^ 10) ^ (e + 1)" by simp
    also have "\<dots> = 2 ^ ?a" by (rule power_mult [symmetric])
    finally have pw: "(1024 :: nat) ^ (e + 1) = 2 ^ ?a" .
    from lo' small have dv: "(1024 :: int) * 1024 ^ e < 2 ^ 53" by simp
    from assms small float64_of_exact [of ?s]
    obtain i where fs: "float64_of ?s = (nat ?s * 2 ^ i, 2 ^ i)" by auto
    from dv float64_of_exact [of "1024 * 1024 ^ e"]
    obtain j where "float64_of (1024 * 1024 ^ e) = (nat (1024 * 1024 ^ e) * 2 ^ j, 2 ^ j)"
      by auto
    moreover have "nat (1024 * 1024 ^ e) = 2 ^ ?a"
      using pw by (simp add: nat_mult_distrib nat_power_eq)
    ultimately have fd: "float64_of (1024 * 1024 ^ e) = (2 ^ ?a * 2 ^ j, 2 ^ j)" by simp
    from lo' assms have "int (2 ^ ?a) \<le> ?s"
      using pw by (metis of_nat_numeral of_nat_power)
    then have le: "2 ^ ?a \<le> nat ?s" by linarith
    from small have lt: "nat ?s < 2 ^ 53" by (simp add: nat_less_iff)
    from fdiv_pow2_exact [OF le lt, of "2 ^ i" "2 ^ j"]
    obtain m where "0 < m" and "fdiv (nat ?s * 2 ^ i, 2 ^ i) (2 ^ ?a * 2 ^ j, 2 ^ j) =
        (nat ?s * m, 2 ^ ?a * m)" by auto
    with x fs fd have "n = nat ?s * m" and "d = 2 ^ ?a * m" by simp_all
    with \<open>0 < m\<close> rhe_div_scale [of m "10 * nat ?s" "2 ^ ?a"] show ?thesis
      unfolding tenths_def pw by (simp add: mult.assoc)
  qed
  moreover from formatSize_accuracy [OF assms e hi' x]
  have "\<bar>real tenths / 10 - real_of_int (sint sz) / 1024 ^ (e + 1)\<bar> \<le> 1 / 20 + 1 / 2 ^ 41"
    by (simp add: tenths_def)
  ultimately show ?thesis
    using e lo' hi' fmt by blast
qed

lemma sizeLoop_int64:
  assumes "1024 \<le> sint (sz :: int64)"
  shows "\<exists>e. sizeLoop (sint sz div 1024) 1024 0 = (1024 ^ (e + 1), e) \<and> e < 6 \<and>
           (1024 :: int) ^ (e + 1) \<le> 2 ^ 60"
proof -
  from assms have "1 \<le> sint sz div 1024" by simp
  from sizeLoop_spec [OF this, of 1024 0]
  obtain e where loop: "sizeLoop (sint sz div 1024) 1024 0 = (1024 * 1024 ^ e, e)"
    and lo: "1024 ^ e \<le> sint sz div 1024"
    by auto
  from lo have "1024 ^ (e + 1) \<le> sint sz" by simp
  moreover have "sint sz < 2 ^ 63"
    using sint_lt [of sz] by simp
  ultimately have "(1024 :: int) ^ (e + 1) < 1024 ^ 7" by simp
  then have "e + 1 < 7" by (simp only: power_strict_increasing_iff rel_simps)
  then have e: "e + 1 \<le> 6" by simp
  then have "(1024 :: int) ^ (e + 1) \<le> 1024 ^ 6"
    by (intro power_increasing) simp_all
  with loop e show ?thesis by auto
qed

subsection \<open>Totals that do not wrap around\<close>

lemma sint_add_exact:
  fixes a b :: int64
  assumes "0 \<le> sint a" and "0 \<le> sint b" and "sint a + sint b < 2 ^ 63"
  shows "sint (a + b) = sint a + sint b"
  using assms by (simp add: sint_word_ariths signed_take_bit_int_eq_self)

lemma sum_sizes_nonneg: "list_all (\<lambda>kv. 0 \<le> sint (snd kv)) m \<Longrightarrow> 0 \<le> sum_sizes m"
  by (induction m) (simp_all add: sum_sizes_def)

lemma total_bytes_nonneg: "list_all (\<lambda>f. 0 \<le> sint (Size f)) fs \<Longrightarrow> 0 \<le> total_bytes fs"
  by (induction fs) (simp_all add: total_bytes_def)

lemma map_incr_exact:
  assumes "list_all (\<lambda>kv. 0 \<le> sint (snd kv)) m" and "0 \<le> sint x"
    and "sum_sizes m + sint x < 2 ^ 63"
  shows "sum_sizes (map_incr m k x) = sum_sizes m + sint x \<and>
         list_all (\<lambda>kv. 0 \<le> sint (snd kv)) (map_incr m k x)"
  using assms
proof (induction m)
  case Nil
  then show ?case by (simp add: sum_sizes_def)
next
  case (Cons a m)
  obtain k' v where a: "a = (k', v)" by (cases a)
  from Cons.prems a have v: "0 \<le> sint v" and m: "list_all (\<lambda>kv. 0 \<le> sint (snd kv)) m"
    by simp_all
  from sum_sizes_nonneg [OF m] have m0: "0 \<le> sum_sizes m" .
  from Cons.prems(3) a have tot: "sint v + sum_sizes m + sint x < 2 ^ 63"
    by (simp add: sum_sizes_def)
  show ?case
  proof (cases "k' = k")
    case True
    from v Cons.prems(2) tot m0 have "sint (v + x) = sint v + sint x"
      by (intro sint_add_exact) simp_all
    with True a v m Cons.prems(2) show ?thesis
      by (simp add: sum_sizes_def)
  next
    case False
    from tot v have "sum_sizes m + sint x < 2 ^ 63" by simp
    from Cons.IH [OF m Cons.prems(2) this] False a v show ?thesis
      by (simp add: sum_sizes_def)
  qed
qed

lemma groupByExt_exact:
  assumes "groupByExt fs (cm, sm) = (cm', sm')"
    and "list_all (\<lambda>f. 0 \<le> sint (Size f)) fs"
    and "list_all (\<lambda>kv. 0 \<le> sint (snd kv)) sm"
    and "sum_sizes sm + total_bytes fs < 2 ^ 63"
  shows "sum_sizes sm' = sum_sizes sm + total_bytes fs"
  using assms
proof (induction fs arbitrary: cm sm)
  case Nil
  then show ?case by (simp add: total_bytes_def)
next
  case (Cons f fs)
  from Cons.prems(2) have f: "0 \<le> sint (Size f)" and fs: "list_all (\<lambda>f. 0 \<le> sint (Size f)) fs"
    by simp_all
  from total_bytes_nonneg [OF fs] have "0 \<le> total_bytes fs" .
  with Cons.prems(4) have "sum_sizes sm + sint (Size f) < 2 ^ 63"
    by (simp add: total_bytes_def)
  from map_incr_exact [OF Cons.prems(3) f this, of "Ext f"]
  have s: "sum_sizes (map_incr sm (Ext f) (Size f)) = sum_sizes sm + sint (Size f)"
    and p: "list_all (\<lambda>kv. 0 \<le> sint (snd kv)) (map_incr sm (Ext f) (Size f))"
    by simp_all
  from Cons.prems(1)
  have g: "groupByExt fs (map_incr cm (Ext f) 1, map_incr sm (Ext f) (Size f)) = (cm', sm')"
    by simp
  from Cons.prems(4) s
  have "sum_sizes (map_incr sm (Ext f) (Size f)) + total_bytes fs < 2 ^ 63"
    by (simp add: total_bytes_def)
  from Cons.IH [OF g fs p this] s show ?case
    by (simp add: total_bytes_def)
qed

lemma walkFn_files:
  "ws_files (snd (walkFn L D m v s)) = ws_files s \<and> snd (walkFn L D m v s) = s\<lparr>ws_out := ws_out (snd (walkFn L D m v s))\<rparr> \<or>
   (\<exists>fd. ws_files (snd (walkFn L D m v s)) = ws_files s @ [fd] \<and> \<not> Size fd <s m \<and>
         ws_totalSize (snd (walkFn L D m v s)) = ws_totalSize s + Size fd \<and>
         ws_directorySizes (snd (walkFn L D m v s)) =
           map_incr (ws_directorySizes s) (D (Path fd)) (Size fd))"
  by (auto simp: walkFn_def Let_def split: option.split sum.split)

lemma collected_exact:
  assumes "0 \<le> sint m"
  shows "total_bytes (ws_files (collected rt m vs)) < 2 ^ 63 \<Longrightarrow>
         walk_exact (collected rt m vs)"
proof (induction vs rule: rev_induct)
  case Nil
  then show ?case
    by (simp add: collected_def walk_init_def walk_exact_def total_bytes_def sum_sizes_def)
next
  case (snoc v vs)
  let ?s = "collected rt m vs"
  let ?s' = "snd (walkFn (rt_ToLower rt) (rt_Dir rt) m v ?s)"
  have c: "collected rt m (vs @ [v]) = ?s'"
    by (simp add: collected_def)
  have nonneg: "list_all (\<lambda>f. 0 \<le> sint (Size f)) (ws_files (collected rt m ws))" for ws
    using collected_sizes [of rt m ws] assms
    by (auto simp: list_all_iff word_sless_alt)
  from total_bytes_nonneg [OF nonneg [of vs]] have t0: "0 \<le> total_bytes (ws_files ?s)" .
  from walkFn_files [of "rt_ToLower rt" "rt_Dir rt" m v ?s]
  consider (same) "ws_files ?s' = ws_files ?s" "?s' = ?s\<lparr>ws_out := ws_out ?s'\<rparr>"
    | (more) fd where "ws_files ?s' = ws_files ?s @ [fd]" "\<not> Size fd <s m"
        "ws_totalSize ?s' = ws_totalSize ?s + Size fd"
        "ws_directorySizes ?s' = map_incr (ws_directorySizes ?s) (rt_Dir rt (Path fd)) (Size fd)"
    by blast
  then show ?case
  proof cases
    case same
    with snoc.prems c have "total_bytes (ws_files ?s) < 2 ^ 63" by simp
    from snoc.IH [OF this] same c show ?thesis
      by (metis (no_types, lifting) walk_exact_def walk_state.select_convs(1,2,3)
          walk_state.surjective walk_state.update_convs(4))
  next
    case more
    from more(2) assms have fd: "0 \<le> sint (Size fd)"
      by (simp add: word_sless_alt)
    from snoc.prems c more(1)
    have tot: "total_bytes (ws_files ?s) + sint (Size fd) < 2 ^ 63"
      by (simp add: total_bytes_def)
    with fd have "total_bytes (ws_files ?s) < 2 ^ 63" by simp
    from snoc.IH [OF this]
    have ts: "sint (ws_totalSize ?s) = total_bytes (ws_files ?s)"
      and ds: "sum_sizes (ws_directorySizes ?s) = total_bytes (ws_files ?s)"
      and dp: "list_all (\<lambda>kv. 0 \<le> sint (snd kv)) (ws_directorySizes ?s)"
      by (simp_all add: walk_exact_def)
    from t0 ts fd tot have "sint (ws_totalSize ?s + Size fd) = sint (ws_totalSize ?s) + sint (Size fd)"
      by (intro sint_add_exact) simp_all
    moreover from ds tot have "sum_sizes (ws_directorySizes ?s) + sint (Size fd) < 2 ^ 63"
      by simp
    note map_incr_exact [OF dp fd this, of "rt_Dir rt (Path fd)"]
    ultimately show ?thesis
      using more ts ds c by (simp add: walk_exact_def total_bytes_def)
  qed
qed


subsection \<open>A run of \<open>sort.Slice\<close> on thirteen elements\<close>

lemma scanDown_unfold:
  "scanDown Q i j = (if 0 < j \<and> i \<le> j \<and> Q j then scanDown Q i (j - 1) else j)"
  by (cases j) auto

text \<open>
  Twelve elements of the same key followed by one of a smaller key: the median of the
  three samples is \<open>g\<close>, the partition around it exchanges \<open>a\<close> with \<open>g\<close> and \<open>b\<close> with \<open>m\<close>,
  and the two sides are sorted by insertion.
\<close>

lemma Slice_thirteen:
  fixes key :: "'a \<Rightarrow> int"
  assumes less: "\<And>x y. lessFn x y \<longleftrightarrow> key x < key y"
    and m: "key m < v"
    and v: "key a = v" "key b = v" "key c = v" "key d = v" "key e = v" "key f = v"
      "key g = v" "key h = v" "key i = v" "key j = v" "key k = v" "key l = v"
  shows "Slice step lessFn [a, b, c, d, e, f, g, h, i, j, k, l, m] =
         [m, g, c, d, e, f, a, h, i, j, k, l, b]"
proof -
  from m have "\<not> v < key m"
    by simp
  with m v show ?thesis
    by (simp add: Slice_def pdqsort_func_def pdqsort_loop.simps bits_Len.simps
        choosePivot_func_def median_func_def order2_func_def Less_def Swap_def less
        partialInsertionSort_func_def partialInsertionSort_loop.simps scanUp.simps
        partition_func_def partition_loop.simps insertionSort_func_def
        insertionSort_outer.simps insertionSort_inner.simps scanDown_unfold Let_def)
qed

lemma Slice_thirteenFiles:
  "Slice step (\<lambda>a b. Size b <s Size a) thirteenFiles = map dataFile ''mgcdefahijklb''"
  "Slice step (\<lambda>a b. Before (LastUsed a) (LastUsed b)) thirteenFiles =
     map dataFile ''mgcdefahijklb''"
proof -
  show "Slice step (\<lambda>a b. Size b <s Size a) thirteenFiles = map dataFile ''mgcdefahijklb''"
    using Slice_thirteen [where step = step and lessFn = "\<lambda>a b. Size b <s Size a"
        and key = "\<lambda>f. - sint (Size f)" and v = "- 2000" and m = "dataFile CHR ''m''"
        and a = "dataFile CHR ''a''" and b = "dataFile CHR ''b''" and c = "dataFile CHR ''c''"
        and d = "dataFile CHR ''d''" and e = "dataFile CHR ''e''" and f = "dataFile CHR ''f''"
        and g = "dataFile CHR ''g''" and h = "dataFile CHR ''h''" and i = "dataFile CHR ''i''"
        and j = "dataFile CHR ''j''" and k = "dataFile CHR ''k''" and l = "dataFile CHR ''l''"]
    by (simp add: thirteenFiles_def dataFile_def word_sless_alt)
  show "Slice step (\<lambda>a b. Before (LastUsed a) (LastUsed b)) thirteenFiles =
        map dataFile ''mgcdefahijklb''"
    using Slice_thirteen [where step = step and lessFn = "\<lambda>a b. Before (LastUsed a) (LastUsed b)"
        and key = LastUsed and v = 63899136000000000000 and m = "dataFile CHR ''m''"
        and a = "dataFile CHR ''a''" and b = "dataFile CHR ''b''" and c = "dataFile CHR ''c''"
        and d = "dataFile CHR ''d''" and e = "dataFile CHR ''e''" and f = "dataFile CHR ''f''"
        and g = "dataFile CHR ''g''" and h = "dataFile CHR ''h''" and i = "dataFile CHR ''i''"
        and j = "dataFile CHR ''j''" and k = "dataFile CHR ''k''" and l = "dataFile CHR ''l''"]
    by (simp add: thirteenFiles_def dataFile_def Before_def)
qed

lemma not_stable_sort_of:
  assumes "x \<in> set xs"
    and "filter (\<lambda>y. key y = key x) ys \<noteq> filter (\<lambda>y. key y = key x) xs"
  shows "\<not> stable_sort_of key xs ys"
  using assms unfolding stable_sort_of_def by blast

text \<open>
  On the two files of the example scan \<open>sort.Slice\<close> is the insertion sort of the
  examples.
\<close>

lemma Slice_exampleFiles:
  "Slice step (\<lambda>a b. Size b <s Size a) exampleFiles =
     insertionSort (\<lambda>a b. Size b <s Size a) exampleFiles"
  "Slice step (\<lambda>a b. Before (LastUsed a) (LastUsed b)) exampleFiles =
     insertionSort (\<lambda>a b. Before (LastUsed a) (LastUsed b)) exampleFiles"
  by (simp_all add: Slice_def pdqsort_func_def pdqsort_loop.simps insertionSort_func_def
      insertionSort_outer.simps insertionSort_inner.simps Less_def Swap_def Let_def
      exampleFiles_def insertionSort_def Before_def)

section \<open>The claims\<close>

subsection \<open>C1: the extension key\<close>

text \<open>
  Claim C1 says that the key is the text after the final dot of the file name, in lower
  case and without the dot, so that \<open>a.TXT\<close> and \<open>b.txt\<close> are counted under \<open>txt\<close>. The
  program keeps the dot: both files are counted under \<open>.txt\<close>, and nothing is counted
  under \<open>txt\<close>. (The two paths are ASCII, where \<open>strings.ToLower\<close> is the function of the
  example.)
\<close>

theorem extension_key_counterexample:
  "ascii ''/data/a.TXT'' \<and> ascii ''/data/b.txt'' \<and>
   fileExt asciiToLower ''/data/a.TXT'' = ''.txt'' \<and>
   fileExt asciiToLower ''/data/b.txt'' = ''.txt'' \<and>
   run_end (main stableRuntime ''/data'' 10 1000 30 exampleVisits) = Reported exampleResults \<and>
   FilesByExtension exampleResults = [(''.txt'', 2)] \<and>
   SizeByExtension exampleResults = [(''.txt'', 8000)] \<and>
   map_get (FilesByExtension exampleResults) ''txt'' = 0 \<and>
   map_get (SizeByExtension exampleResults) ''txt'' = 0"
  by (simp add: fileExt_examples main_example ascii_def) (simp add: exampleResults_def)

text \<open>
  Claim C1, amended. The key of a file is the suffix of its name (the last element of the
  path) that starts at the final dot, the dot included, put in lower case by
  \<open>strings.ToLower\<close>; it is \<open>no_extension\<close> when the name has no dot. For an ASCII path the
  key is the dot followed by the rest of the suffix with A to Z moved to a to z. Every
  collected record carries this key, and in a report the count and the size filed under
  a key are the number and the total size of the collected files with that key.
\<close>

theorem extension_key:
  assumes "ToLower_contract (rt_ToLower rt)"
  shows "fileExt (rt_ToLower rt) path =
     (let name = rev (takeWhile (\<lambda>c. c \<noteq> CHR ''/'') (rev path))
      in if CHR ''.'' \<in> set name
         then rt_ToLower rt (CHR ''.'' # rev (takeWhile (\<lambda>c. c \<noteq> CHR ''.'') (rev name)))
         else ''no_extension'') \<and>
   (ascii path \<longrightarrow>
      fileExt (rt_ToLower rt) path =
        (let name = rev (takeWhile (\<lambda>c. c \<noteq> CHR ''/'') (rev path))
         in if CHR ''.'' \<in> set name
            then CHR ''.'' # map lower_char (rev (takeWhile (\<lambda>c. c \<noteq> CHR ''.'') (rev name)))
            else ''no_extension'')) \<and>
   (run_end (main rt dir topN minSize daysUnused visits) = Reported r \<longrightarrow>
      (let fs = ws_files (collected rt minSize visits)
       in (\<forall>f \<in> set fs. Ext f = fileExt (rt_ToLower rt) (Path f)) \<and>
          set (map fst (FilesByExtension r)) = (\<lambda>f. fileExt (rt_ToLower rt) (Path f)) ` set fs \<and>
          set (map fst (SizeByExtension r)) = (\<lambda>f. fileExt (rt_ToLower rt) (Path f)) ` set fs \<and>
          map_get (FilesByExtension r) k =
            int (length (filter (\<lambda>f. fileExt (rt_ToLower rt) (Path f) = k) fs)) \<and>
          map_get (SizeByExtension r) k =
            sum_list (map Size (filter (\<lambda>f. fileExt (rt_ToLower rt) (Path f) = k) fs))))"
proof -
  let ?fs = "ws_files (collected rt minSize visits)"
  let ?key = "\<lambda>f. fileExt (rt_ToLower rt) (Path f)"
  have ext: "\<forall>f \<in> set ?fs. Ext f = ?key f"
    by (rule collected_ext)
  then have flt: "filter (\<lambda>f. ?key f = k) ?fs = filter (\<lambda>f. Ext f = k) ?fs"
    by (auto intro: filter_cong)
  from ext have img: "?key ` set ?fs = Ext ` set ?fs"
    by (auto intro!: image_cong)
  obtain cm sm where g: "groupByExt ?fs ([], []) = (cm, sm)"
    by (cases "groupByExt ?fs ([], [])")
  have maps: "FilesByExtension r = cm \<and> SizeByExtension r = sm"
    if "run_end (main rt dir topN minSize daysUnused visits) = Reported r"
    using that by (simp add: main_Reported analyzeFiles_def g)
  have report: "run_end (main rt dir topN minSize daysUnused visits) = Reported r \<longrightarrow>
      (let fs = ?fs
       in (\<forall>f \<in> set fs. Ext f = ?key f) \<and>
          set (map fst (FilesByExtension r)) = ?key ` set fs \<and>
          set (map fst (SizeByExtension r)) = ?key ` set fs \<and>
          map_get (FilesByExtension r) k = int (length (filter (\<lambda>f. ?key f = k) fs)) \<and>
          map_get (SizeByExtension r) k = sum_list (map Size (filter (\<lambda>f. ?key f = k) fs)))"
    using maps groupByExt_get [OF g, of k] groupByExt_keys [OF g] ext
    unfolding Let_def flt img by simp
  have lower: "ascii path \<longrightarrow>
      fileExt (rt_ToLower rt) path =
        (let name = rev (takeWhile (\<lambda>c. c \<noteq> CHR ''/'') (rev path))
         in if CHR ''.'' \<in> set name
            then CHR ''.'' # map lower_char (rev (takeWhile (\<lambda>c. c \<noteq> CHR ''.'') (rev name)))
            else ''no_extension'')"
    using fileExt_ascii [OF assms, of path] by (simp add: Let_def lower_char_dot)
  from fileExt_spec [OF assms, of path] lower report show ?thesis
    by (intro conjI)
qed

theorem extension_key_witness:
  "ToLower_contract (rt_ToLower stableRuntime) \<and> ascii ''/data/a.TXT'' \<and>
   fileExt (rt_ToLower stableRuntime) ''/data/a.TXT'' = ''.txt'' \<and>
   run_end (main stableRuntime ''/data'' 10 1000 30 exampleVisits) = Reported exampleResults \<and>
   ws_files (collected stableRuntime 1000 exampleVisits) = exampleFiles \<and>
   map_get (FilesByExtension exampleResults) ''.txt'' = 2 \<and>
   map_get (SizeByExtension exampleResults) ''.txt'' = 8000"
proof -
  let ?fs = "ws_files (collected stableRuntime 1000 exampleVisits)"
  let ?key = "\<lambda>f. fileExt (rt_ToLower stableRuntime) (Path f)"
  have c: "ToLower_contract (rt_ToLower stableRuntime)"
    by (simp add: stableRuntime_def asciiToLower_contract)
  have l: "rt_ToLower stableRuntime = asciiToLower"
    by (simp add: stableRuntime_def)
  have a: "ascii ''/data/a.TXT''"
    by (simp add: ascii_def)
  from extension_key [OF c, of "''/data/a.TXT''" "''/data''" 10 1000 30 exampleVisits
      exampleResults "''.txt''"] main_example
  have "map_get (FilesByExtension exampleResults) ''.txt'' =
          int (length (filter (\<lambda>f. ?key f = ''.txt'') ?fs)) \<and>
        map_get (SizeByExtension exampleResults) ''.txt'' =
          sum_list (map Size (filter (\<lambda>f. ?key f = ''.txt'') ?fs))"
    unfolding Let_def by blast
  moreover have "filter (\<lambda>f. ?key f = ''.txt'') ?fs = exampleFiles"
    by (simp add: collected_example l) (simp add: exampleFiles_def fileExt_examples)
  ultimately have "map_get (FilesByExtension exampleResults) ''.txt'' = 2 \<and>
        map_get (SizeByExtension exampleResults) ''.txt'' = 8000"
    by (simp add: exampleFiles_def)
  with c a main_example show ?thesis
    by (simp add: l fileExt_examples collected_example)
qed

subsection \<open>C2: a root that cannot be walked\<close>

text \<open>
  Claim C2. When the walk cannot start, \<open>filepath.WalkDir\<close> hands the error to the
  callback: for a root that \<open>Lstat\<close> rejects it makes one call, with the error; for a root
  directory that cannot be listed it makes the call for the directory and then one call
  with the error of \<open>ReadDir\<close>. In both cases the run prints the error and returns
  early. Nothing is collected (no file, a total of 0, an empty map of directories), the
  analysis is not reached, and no section of the report is printed: the output is the
  banner, the line of the error and the line that says that no file was found.
\<close>

theorem root_failure_aborts:
  assumes "dir \<noteq> []"
    and "v_path v = dir" and "v_err v = Some e"
    and "v_err d = None" and "v_IsDir d"
  shows "list_all
           (\<lambda>visits.
              main rt dir topN minSize daysUnused visits =
                \<lparr>run_out =
                   [''Analyzing files in: '' @ dir,
                    ''Showing top '' @ showInt topN @ '' results'',
                    ''Considering files larger than '' @ formatSize minSize @ '' as significant'',
                    ''Considering files unused if not accessed in '' @ showInt daysUnused
                      @ '' days'',
                    '''',
                    ''Error accessing '' @ dir @ '': '' @ e,
                    ''No files found matching the criteria.''],
                 run_end = NoFilesFound\<rparr> \<and>
              collected rt minSize visits =
                walk_init\<lparr>ws_out := [''Error accessing '' @ dir @ '': '' @ e]\<rparr>)
           [[v], [d, v]]"
  using assms
  by (simp add: main_def collected_def walkFn_def walk_init_def Let_def)

theorem root_failure_aborts_witness:
  "main stableRuntime ''/nonexistent'' 10 1000000 30 missingRoot =
     \<lparr>run_out =
        [''Analyzing files in: /nonexistent'',
         ''Showing top 10 results'',
         ''Considering files larger than 976.6 KiB as significant'',
         ''Considering files unused if not accessed in 30 days'',
         '''',
         ''Error accessing /nonexistent: lstat /nonexistent: no such file or directory'',
         ''No files found matching the criteria.''],
      run_end = NoFilesFound\<rparr> \<and>
   main stableRuntime ''/root'' 10 1000000 30 unreadableRoot =
     \<lparr>run_out =
        [''Analyzing files in: /root'',
         ''Showing top 10 results'',
         ''Considering files larger than 976.6 KiB as significant'',
         ''Considering files unused if not accessed in 30 days'',
         '''',
         ''Error accessing /root: open /root: permission denied'',
         ''No files found matching the criteria.''],
      run_end = NoFilesFound\<rparr> \<and>
   ws_files (collected stableRuntime 1000000 missingRoot) = [] \<and>
   ws_files (collected stableRuntime 1000000 unreadableRoot) = []"
proof -
  have banner: "showInt 10 = ''10''" "showInt 30 = ''30''" "formatSize 1000000 = ''976.6 KiB''"
    by (simp_all add: showInt_def showNat.simps digit_char_def formatSize_def sizeLoop.simps
        fmt_f1_def fdiv_def float64_of_def fl_def shift_up.simps shift_down.simps rhe_div_def
        Let_def)
  from root_failure_aborts [of "''/nonexistent''" "hd missingRoot"
      "''lstat /nonexistent: no such file or directory''" "hd unreadableRoot"
      stableRuntime 10 1000000 30]
  have "main stableRuntime ''/nonexistent'' 10 1000000 30 missingRoot =
     \<lparr>run_out =
        [''Analyzing files in: /nonexistent'',
         ''Showing top 10 results'',
         ''Considering files larger than 976.6 KiB as significant'',
         ''Considering files unused if not accessed in 30 days'',
         '''',
         ''Error accessing /nonexistent: lstat /nonexistent: no such file or directory'',
         ''No files found matching the criteria.''],
      run_end = NoFilesFound\<rparr> \<and>
     ws_files (collected stableRuntime 1000000 missingRoot) = []"
    by (simp add: missingRoot_def unreadableRoot_def banner walk_init_def)
  moreover
  from root_failure_aborts [of "''/root''" "unreadableRoot ! 1"
      "''open /root: permission denied''" "hd unreadableRoot"
      stableRuntime 10 1000000 30]
  have "main stableRuntime ''/root'' 10 1000000 30 unreadableRoot =
     \<lparr>run_out =
        [''Analyzing files in: /root'',
         ''Showing top 10 results'',
         ''Considering files larger than 976.6 KiB as significant'',
         ''Considering files unused if not accessed in 30 days'',
         '''',
         ''Error accessing /root: open /root: permission denied'',
         ''No files found matching the criteria.''],
      run_end = NoFilesFound\<rparr> \<and>
     ws_files (collected stableRuntime 1000000 unreadableRoot) = []"
    by (simp add: unreadableRoot_def banner walk_init_def)
  ultimately show ?thesis
    by simp
qed

subsection \<open>C3: the size floor is a hard filter\<close>

text \<open>
  Claim C3. A file whose size is strictly below the minimum size contributes to nothing:
  a run over a walk and the run over the same walk without the visits of such files are
  equal, in the lines printed and in the results (the two ranked sequences, the totals
  and the three maps). Consequently every record of the two ranked sequences of a report
  has a size of at least the minimum size.
\<close>

theorem below_floor_excluded:
  assumes "runtime_ok rt"
  shows "main rt dir topN minSize daysUnused (filter (\<lambda>v. \<not> below_floor minSize v) visits) =
         main rt dir topN minSize daysUnused visits \<and>
         (\<forall>r. run_end (main rt dir topN minSize daysUnused visits) = Reported r \<longrightarrow>
            (\<forall>f \<in> set (LargestFiles r) \<union> set (OldestFiles r). \<not> Size f <s minSize))"
proof -
  from assms have srt: "sort_Slice_contract (rt_sortFiles rt)"
    by (simp add: runtime_ok_def)
  have "set (LargestFiles r) \<union> set (OldestFiles r) = set (ws_files (collected rt minSize visits))"
    if "run_end (main rt dir topN minSize daysUnused visits) = Reported r" for r
  proof -
    from that have r: "r = analyzeFiles (rt_sortFiles rt) (ws_files (collected rt minSize visits))
         (ws_totalSize (collected rt minSize visits))
         (ws_directorySizes (collected rt minSize visits)) daysUnused"
      by (simp add: main_Reported)
    from analyzeFiles_sets [OF srt] show ?thesis
      unfolding r by (metis mset_eq_setD sup.idem)
  qed
  with collected_sizes [of rt minSize visits] main_filter show ?thesis
    by blast
qed

theorem below_floor_excluded_witness:
  "runtime_ok stableRuntime \<and>
   below_floor 1000 (exampleVisits ! 3) \<and>
   run_end (main stableRuntime ''/data'' 10 1000 30
     (filter (\<lambda>v. \<not> below_floor 1000 v) exampleVisits)) = Reported exampleResults \<and>
   list_all (\<lambda>f. \<not> Size f <s 1000) (LargestFiles exampleResults @ OldestFiles exampleResults)"
proof -
  have small: "below_floor 1000 (exampleVisits ! 3)"
    by (simp add: below_floor_def exampleVisits_def)
  from below_floor_excluded [OF stableRuntime_ok, of "''/data''" 10 1000 30 exampleVisits]
    main_example stableRuntime_ok small
  show ?thesis by (simp add: list_all_iff)
qed

subsection \<open>C4: the totals are conserved\<close>

text \<open>
  Claim C4. In the results of every report, the values of the count-by-extension map sum
  to the number of files, and the values of the size-by-extension map and of the
  size-by-directory map both sum to the total size. Sizes are \<open>int64\<close>: the first three
  equations take the sums in 64-bit arithmetic, as the program adds them, and hold for
  every run. The last part reads the sizes as integers: with a size floor that is not
  negative, and collected files whose sizes add up to less than \<open>2 ^ 63\<close> bytes, no sum
  wraps around, and the integer sums of both maps are the total, which is the sum of the
  sizes of the collected files.
\<close>

theorem totals_conserved:
  "run_end (main rt dir topN minSize daysUnused visits) = Reported r \<Longrightarrow>
   sum_values (FilesByExtension r) = TotalFiles r \<and>
   sum_values (SizeByExtension r) = TotalSize r \<and>
   sum_values (DirectorySizes r) = TotalSize r \<and>
   (0 \<le> sint minSize \<and> total_bytes (ws_files (collected rt minSize visits)) < 2 ^ 63 \<longrightarrow>
      sint (TotalSize r) = total_bytes (ws_files (collected rt minSize visits)) \<and>
      sum_sizes (SizeByExtension r) = sint (TotalSize r) \<and>
      sum_sizes (DirectorySizes r) = sint (TotalSize r))"
proof -
  let ?s = "collected rt minSize visits"
  assume "run_end (main rt dir topN minSize daysUnused visits) = Reported r"
  then have r: "r = analyzeFiles (rt_sortFiles rt) (ws_files ?s)
         (ws_totalSize ?s) (ws_directorySizes ?s) daysUnused"
    by (simp add: main_Reported)
  have inv: "walk_inv ?s"
    unfolding collected_def by (rule fold_walk_inv [OF walk_inv_init])
  obtain cm sm where g: "groupByExt (ws_files ?s) ([], []) = (cm, sm)"
    by (cases "groupByExt (ws_files ?s) ([], [])")
  from groupByExt_sums [OF g] inv
  have words: "sum_values (FilesByExtension r) = TotalFiles r \<and>
      sum_values (SizeByExtension r) = TotalSize r \<and>
      sum_values (DirectorySizes r) = TotalSize r"
    by (simp add: r analyzeFiles_def g walk_inv_def sum_values_def)
  have ints: "sint (TotalSize r) = total_bytes (ws_files ?s) \<and>
      sum_sizes (SizeByExtension r) = sint (TotalSize r) \<and>
      sum_sizes (DirectorySizes r) = sint (TotalSize r)"
    if m: "0 \<le> sint minSize" and t: "total_bytes (ws_files ?s) < 2 ^ 63"
  proof -
    from collected_exact [OF m t]
    have ts: "sint (ws_totalSize ?s) = total_bytes (ws_files ?s)"
      and ds: "sum_sizes (ws_directorySizes ?s) = total_bytes (ws_files ?s)"
      by (simp_all add: walk_exact_def)
    have nonneg: "list_all (\<lambda>f. 0 \<le> sint (Size f)) (ws_files ?s)"
      using collected_sizes [of rt minSize visits] m
      by (auto simp: list_all_iff word_sless_alt)
    from groupByExt_exact [OF g nonneg] t have "sum_sizes sm = total_bytes (ws_files ?s)"
      by (simp add: sum_sizes_def)
    with ts ds show ?thesis
      by (simp add: r analyzeFiles_def g)
  qed
  from words ints show ?thesis by blast
qed

theorem totals_conserved_witness:
  "run_end (main stableRuntime ''/data'' 10 1000 30 exampleVisits) = Reported exampleResults \<and>
   sum_values (FilesByExtension exampleResults) = 2 \<and>
   sum_values (SizeByExtension exampleResults) = 8000 \<and>
   sum_values (DirectorySizes exampleResults) = 8000 \<and>
   total_bytes (ws_files (collected stableRuntime 1000 exampleVisits)) = 8000 \<and>
   sint (TotalSize exampleResults) = 8000 \<and>
   sum_sizes (SizeByExtension exampleResults) = 8000 \<and>
   sum_sizes (DirectorySizes exampleResults) = 8000"
  using totals_conserved [OF main_example] main_example
  by (simp add: exampleResults_def collected_example exampleFiles_def total_bytes_def)

subsection \<open>C5: the two ranked sequences\<close>

text \<open>
  Claim C5 says that both sorts are stable. \<open>sort.Slice\<close> is not: on more than 12
  elements it partitions the slice around a pivot, and the exchanges of a partition
  carry equal elements past each other. The analysis of the thirteen files \<open>a\<close> to \<open>m\<close>,
  collected in this order, puts \<open>m\<close> first in both sequences, the largest and the least
  recently used file, and after it the twelve tied files in the order \<open>g\<close>, \<open>c\<close>, \<open>d\<close>,
  \<open>e\<close>, \<open>f\<close>, \<open>a\<close>, \<open>h\<close>, \<open>i\<close>, \<open>j\<close>, \<open>k\<close>, \<open>l\<close>, \<open>b\<close>. Both sequences are sorted
  permutations of the collected files; neither keeps the ties in the order collected.
  (The generator of \<open>breakPatterns_func\<close> is not called in this run: the result is the
  same for every step function.)
\<close>

theorem stable_ranking_counterexample:
  "\<forall>xorshift_Next.
     LargestFiles (analyzeFiles (Slice xorshift_Next) thirteenFiles 27000 [(''/data'', 27000)] 30) =
       map dataFile ''mgcdefahijklb'' \<and>
     OldestFiles (analyzeFiles (Slice xorshift_Next) thirteenFiles 27000 [(''/data'', 27000)] 30) =
       map dataFile ''mgcdefahijklb'' \<and>
     mset (map dataFile ''mgcdefahijklb'') = mset thirteenFiles \<and>
     sorted_wrt (\<lambda>a b. sint (Size b) \<le> sint (Size a)) (map dataFile ''mgcdefahijklb'') \<and>
     sorted_wrt (\<lambda>a b. LastUsed a \<le> LastUsed b) (map dataFile ''mgcdefahijklb'') \<and>
     \<not> stable_sort_of (\<lambda>f. - sint (Size f)) thirteenFiles
         (LargestFiles
            (analyzeFiles (Slice xorshift_Next) thirteenFiles 27000 [(''/data'', 27000)] 30)) \<and>
     \<not> stable_sort_of LastUsed thirteenFiles
         (OldestFiles
            (analyzeFiles (Slice xorshift_Next) thirteenFiles 27000 [(''/data'', 27000)] 30))"
proof -
  have r: "LargestFiles (analyzeFiles (Slice step) thirteenFiles 27000 [(''/data'', 27000)] 30) =
             map dataFile ''mgcdefahijklb''"
    "OldestFiles (analyzeFiles (Slice step) thirteenFiles 27000 [(''/data'', 27000)] 30) =
             map dataFile ''mgcdefahijklb''" for step
    by (simp_all add: analyzeFiles_def Slice_thirteenFiles split_beta)
  have "mset (map dataFile ''mgcdefahijklb'') = mset thirteenFiles"
    by (simp add: thirteenFiles_def)
  moreover have "sorted_wrt (\<lambda>a b. sint (Size b) \<le> sint (Size a)) (map dataFile ''mgcdefahijklb'')"
    "sorted_wrt (\<lambda>a b. LastUsed a \<le> LastUsed b) (map dataFile ''mgcdefahijklb'')"
    by (simp_all add: dataFile_def)
  moreover have "\<not> stable_sort_of (\<lambda>f. - sint (Size f)) thirteenFiles
      (map dataFile ''mgcdefahijklb'')"
    by (rule not_stable_sort_of [of "dataFile CHR ''a''"])
       (simp_all add: thirteenFiles_def dataFile_def)
  moreover have "\<not> stable_sort_of LastUsed thirteenFiles (map dataFile ''mgcdefahijklb'')"
    by (rule not_stable_sort_of [of "dataFile CHR ''a''"])
       (simp_all add: thirteenFiles_def dataFile_def)
  ultimately show ?thesis
    by (simp only: r simp_thms)
qed

text \<open>
  Claim C5, amended. Each ranked sequence is a permutation of the collected sequence;
  the largest-first sequence is non-increasing in size and the oldest-first sequence is
  non-decreasing in the time of last use (so a zero time precedes every later time). The
  relative order of records with equal keys is not determined.
\<close>

theorem ranked_sequences:
  assumes "sort_Slice_contract sort_Slice"
  shows "let r = analyzeFiles sort_Slice fs totalSize directorySizes daysUnused
         in mset (LargestFiles r) = mset fs \<and>
            sorted_wrt (\<lambda>a b. sint (Size b) \<le> sint (Size a)) (LargestFiles r) \<and>
            mset (OldestFiles r) = mset fs \<and>
            sorted_wrt (\<lambda>a b. LastUsed a \<le> LastUsed b) (OldestFiles r)"
proof -
  from assms swo_size
  have "sorted_wrt (\<lambda>a b. \<not> Size a <s Size b) (sort_Slice (\<lambda>a b. Size b <s Size a) fs)"
    unfolding sort_Slice_contract_def by blast
  then have l: "sorted_wrt (\<lambda>a b. sint (Size b) \<le> sint (Size a))
                  (sort_Slice (\<lambda>a b. Size b <s Size a) fs)"
    by (simp add: word_sless_alt not_less)
  from assms swo_lastUsed
  have "sorted_wrt (\<lambda>a b. \<not> Before (LastUsed b) (LastUsed a))
          (sort_Slice (\<lambda>a b. Before (LastUsed a) (LastUsed b)) fs)"
    unfolding sort_Slice_contract_def by blast
  then have "sorted_wrt (\<lambda>a b. LastUsed a \<le> LastUsed b)
               (sort_Slice (\<lambda>a b. Before (LastUsed a) (LastUsed b)) fs)"
    by (simp add: Before_def not_less)
  with l analyzeFiles_sets [OF assms, of fs totalSize directorySizes daysUnused]
  show ?thesis
    by (simp add: Let_def) (simp add: analyzeFiles_def Let_def split: prod.split)
qed

theorem ranked_sequences_witness:
  "sort_Slice_contract (insertionSort :: (FileInfo \<Rightarrow> FileInfo \<Rightarrow> bool) \<Rightarrow> _) \<and>
   analyzeFiles insertionSort exampleFiles 8000 [(''/data'', 8000)] 30 = exampleResults \<and>
   mset (LargestFiles exampleResults) = mset exampleFiles \<and>
   sorted_wrt (\<lambda>a b. sint (Size b) \<le> sint (Size a)) (LargestFiles exampleResults) \<and>
   sorted_wrt (\<lambda>a b. LastUsed a \<le> LastUsed b) (OldestFiles exampleResults)"
  using ranked_sequences [OF insertionSort_contract, of exampleFiles 8000 "[(''/data'', 8000)]" 30]
  by (simp add: analyzeFiles_example insertionSort_contract)

subsection \<open>C6: the unused-files section\<close>

text \<open>
  Claim C6. For \<open>topN \<ge> 1\<close>, the unused-files section prints the lines of the first
  \<open>min(topN, k)\<close> records of the oldest-first sequence whose last use is strictly before
  the cutoff, the clock reading minus \<open>daysUnused\<close> days as \<open>AddDate\<close> computes it, where
  \<open>k\<close> is the number of such records; when there is none it prints the single line that
  says so.
\<close>

theorem unused_section:
  assumes "1 \<le> topN"
  shows "let cutoff = rt_addDays rt (rt_clock rt c) (- daysUnused);
             qualifying = filter (\<lambda>f. LastUsed f < cutoff) (OldestFiles results);
             emitted = take (nat topN) qualifying
         in length emitted = min (nat topN) (length qualifying) \<and>
            unusedEntries rt results topN daysUnused c =
              (if qualifying = [] then ([noneFound], Suc c)
               else fileLines (rt_clock rt) emitted (Suc c)) \<and>
            length (fst (unusedEntries rt results topN daysUnused c)) =
              (if qualifying = [] then 1 else length emitted)"
proof -
  from assms have "max 1 (nat topN) = nat topN" by simp
  then show ?thesis
    by (simp add: unusedEntries_spec Let_def length_fileLines min.commute)
qed

theorem unused_section_witness:
  "(1::int) \<le> 10 \<and>
   unusedEntries stableRuntime exampleResults 10 30 0 =
     ([''4.9 KiB - /data/a.TXT (Last used: 1 months ago)''], 2) \<and>
   unusedEntries stableRuntime exampleResults 10 60 0 = ([noneFound], 1)"
proof -
  have clk: "rt_clock stableRuntime = (\<lambda>c. 63900000000000000000 + int c)"
    "rt_addDays stableRuntime = utcAddDays"
    by (simp_all add: stableRuntime_def)
  have line: "fileLine (\<lambda>c. 63900000000000000000 + int c) (exampleFiles ! 0) 1 =
              (''4.9 KiB - /data/a.TXT (Last used: 1 months ago)'', 2)"
    by (simp add: exampleFiles_def fileLine_def formatTime_def formatSize_def IsZero_def
        Sub_def maxDuration_def minDuration_def Minute_def Hour_def Hours_def
        sizeLoop.simps fmt_f1_def fmt_f0_def fdiv_def fadd_def float64_of_def fl_def
        shift_up.simps shift_down.simps rhe_div_def showNat.simps digit_char_def Let_def)
  have "(1::int) \<le> 10" by simp
  from unused_section [OF this, where rt = stableRuntime and results = exampleResults
      and c = 0 and daysUnused = 30]
    unused_section [OF this, where rt = stableRuntime and results = exampleResults
      and c = 0 and daysUnused = 60] line
  show ?thesis
    by (simp add: clk utcAddDays_def exampleResults_def exampleFiles_def fileLines_def Let_def)
qed

subsection \<open>C7: byte sizes\<close>

text \<open>
  Claim C7. For a non-negative byte count: below 1024 the text is the count in decimal
  digits followed by \<open>B\<close>, without a decimal point; from 1024 on it is a number with
  exactly one decimal digit followed by the unit, and the unit is the largest of KiB,
  MiB, GiB, TiB, PiB, EiB that does not exceed the count. The number is within
  \<open>0.05 + 2\<^sup>-\<^sup>4\<^sup>1\<close> of the count divided by the unit; for a count below \<open>2\<^sup>5\<^sup>3\<close>, where the
  conversion to \<open>float64\<close> is exact, it is that quotient rounded to the nearest tenth, ties
  to even. 999 gives \<open>999 B\<close>, 0 gives \<open>0 B\<close>, 1000000 gives
  \<open>976.6 KiB\<close> and 1073741824 gives \<open>1.0 GiB\<close>.
\<close>

theorem byte_size_text:
  assumes "0 \<le> sint sz"
  shows "(sint sz < 1024 \<longrightarrow>
            formatSize sz = showNat (nat (sint sz)) @ '' B'' \<and>
            set (showNat (nat (sint sz))) \<subseteq> set ''0123456789'') \<and>
         (1024 \<le> sint sz \<longrightarrow>
            (\<exists>e tenths. e < 6 \<and> 1024 ^ (e + 1) \<le> sint sz \<and> sint sz < 1024 ^ (e + 2) \<and>
               formatSize sz = showNat (tenths div 10) @ ''.'' @ [digit_char (tenths mod 10)]
                               @ '' '' @ [''KMGTPE'' ! e] @ ''iB'' \<and>
               set (showNat (tenths div 10)) \<subseteq> set ''0123456789'' \<and>
               digit_char (tenths mod 10) \<in> set ''0123456789'' \<and>
               \<bar>real tenths / 10 - real_of_int (sint sz) / 1024 ^ (e + 1)\<bar>
                 \<le> 1 / 20 + 1 / 2 ^ 41 \<and>
               (sint sz < 2 ^ 53 \<longrightarrow>
                  tenths = rhe_div (10 * nat (sint sz)) (1024 ^ (e + 1))))) \<and>
         formatSize 999 = ''999 B'' \<and> formatSize 0 = ''0 B'' \<and>
         formatSize 1000000 = ''976.6 KiB'' \<and> formatSize 1073741824 = ''1.0 GiB''"
proof -
  have small: "formatSize sz = showNat (nat (sint sz)) @ '' B''" if "sint sz < 1024"
    using that assms by (simp add: formatSize_small showInt_def)
  have large: "\<exists>e tenths. e < 6 \<and> 1024 ^ (e + 1) \<le> sint sz \<and> sint sz < 1024 ^ (e + 2) \<and>
               formatSize sz = showNat (tenths div 10) @ ''.'' @ [digit_char (tenths mod 10)]
                               @ '' '' @ [''KMGTPE'' ! e] @ ''iB'' \<and>
               set (showNat (tenths div 10)) \<subseteq> set ''0123456789'' \<and>
               digit_char (tenths mod 10) \<in> set ''0123456789'' \<and>
               \<bar>real tenths / 10 - real_of_int (sint sz) / 1024 ^ (e + 1)\<bar>
                 \<le> 1 / 20 + 1 / 2 ^ 41 \<and>
               (sint sz < 2 ^ 53 \<longrightarrow>
                  tenths = rhe_div (10 * nat (sint sz)) (1024 ^ (e + 1)))"
    if "1024 \<le> sint sz"
  proof -
    from formatSize_large [OF that] obtain e tenths where
      "e < 6" "1024 ^ (e + 1) \<le> sint sz" "sint sz < 1024 ^ (e + 2)"
      "formatSize sz = showNat (tenths div 10) @ ''.'' @ [digit_char (tenths mod 10)]
                               @ '' '' @ [''KMGTPE'' ! e] @ ''iB''"
      "\<bar>real tenths / 10 - real_of_int (sint sz) / 1024 ^ (e + 1)\<bar> \<le> 1 / 20 + 1 / 2 ^ 41"
      "sint sz < 2 ^ 53 \<longrightarrow> tenths = rhe_div (10 * nat (sint sz)) (1024 ^ (e + 1))"
      by blast
    moreover have "set (showNat (tenths div 10)) \<subseteq> set ''0123456789''"
      by (rule showNat_digits)
    moreover have "digit_char (tenths mod 10) \<in> set ''0123456789''"
      by (rule digit_char_digit) simp
    ultimately show ?thesis by blast
  qed
  have examples: "formatSize 999 = ''999 B''" "formatSize 0 = ''0 B''"
    "formatSize 1000000 = ''976.6 KiB''" "formatSize 1073741824 = ''1.0 GiB''"
    by (simp_all add: formatSize_def showInt_def showNat.simps digit_char_def sizeLoop.simps
        fmt_f1_def fdiv_def float64_of_def fl_def shift_up.simps shift_down.simps rhe_div_def
        Let_def)
  from small large examples showNat_digits [of "nat (sint sz)"] show ?thesis
    by blast
qed

theorem byte_size_text_witness:
  "0 \<le> sint (1536 :: int64) \<and> 1024 \<le> sint (1536 :: int64) \<and>
   (\<exists>e tenths. e < 6 \<and> 1024 ^ (e + 1) \<le> sint (1536 :: int64) \<and>
      formatSize 1536 = showNat (tenths div 10) @ ''.'' @ [digit_char (tenths mod 10)]
                        @ '' '' @ [''KMGTPE'' ! e] @ ''iB'') \<and>
   formatSize 1536 = ''1.5 KiB''"
proof -
  have h: "0 \<le> sint (1536 :: int64)" and l: "1024 \<le> sint (1536 :: int64)"
    by simp_all
  from byte_size_text [OF h] l
  have "\<exists>e tenths. e < 6 \<and> 1024 ^ (e + 1) \<le> sint (1536 :: int64) \<and>
      formatSize 1536 = showNat (tenths div 10) @ ''.'' @ [digit_char (tenths mod 10)]
                        @ '' '' @ [''KMGTPE'' ! e] @ ''iB''"
    by blast
  moreover have "formatSize 1536 = ''1.5 KiB''"
    by (simp add: formatSize_def showNat.simps digit_char_def sizeLoop.simps
        fmt_f1_def fdiv_def float64_of_def fl_def shift_up.simps shift_down.simps rhe_div_def
        Let_def)
  ultimately show ?thesis
    using h l by blast
qed

subsection \<open>C8: relative times\<close>

text \<open>
  Claim C8 gives \<open>13 months ago\<close> for an elapsed time of 400 days. 400 days are not less
  than 365 days, so the last case applies and the text is \<open>1 years ago\<close>.
\<close>

theorem relative_time_counterexample:
  "Sub (stoppedClock 0) (exampleNow - 34560000000000000) = 34560000000000000 \<and>
   \<not> Sub (stoppedClock 0) (exampleNow - 34560000000000000) < 365 * 24 * Hour \<and>
   fst (formatTime stoppedClock 0 (exampleNow - 34560000000000000)) = ''1 years ago'' \<and>
   fst (formatTime stoppedClock 0 (exampleNow - 34560000000000000)) \<noteq> ''13 months ago''"
proof -
  have "Sub (stoppedClock 0) (exampleNow - 34560000000000000) = 34560000000000000"
    by (simp add: Sub_def maxDuration_def minDuration_def exampleNow_def stoppedClock_def)
  moreover have "\<not> (34560000000000000 :: int) < 365 * 24 * Hour"
    by (simp add: Hour_def)
  ultimately show ?thesis
    using formatTime_examples(5) by simp
qed

text \<open>
  Claim C8, amended in its example. A zero time gives \<open>unknown\<close>. Otherwise, with \<open>d\<close>
  the clock reading minus the time (as \<open>Time.Sub\<close> gives it), the text is \<open>just now\<close>
  when \<open>d\<close> is less than a minute, and \<open>N minutes ago\<close>, \<open>N hours ago\<close>, \<open>N days ago\<close>,
  \<open>N months ago\<close> (months of 30 days) or \<open>N years ago\<close> (years of 365 days) when \<open>d\<close> is
  less than an hour, 24 hours, 30 days, 365 days, or not. \<open>N\<close> is an integer nearest to
  the \<open>float64\<close> number of units that the program computes, and that number is so close
  to the elapsed time divided by the unit that \<open>N\<close> is within \<open>1/2 + 2\<^sup>-\<^sup>4\<^sup>0\<close> of it.
  30 seconds give \<open>just now\<close>, 90 minutes \<open>2 hours ago\<close>, 400 days \<open>1 years ago\<close>.
\<close>

theorem relative_time_text:
  "(let d = Sub (clk c) t; text = fst (formatTime clk c t)
    in (t = 0 \<longrightarrow> text = ''unknown'') \<and>
       (t \<noteq> 0 \<and> d < Minute \<longrightarrow> text = ''just now'') \<and>
       (t \<noteq> 0 \<and> Minute \<le> d \<and> d < Hour \<longrightarrow>
          (\<exists>N. text = showNat N @ '' minutes ago'' \<and> nearest N (Minutes d) \<and>
               \<bar>real N - real_of_int d / real_of_int Minute\<bar> \<le> 1 / 2 + 1 / 2 ^ 40)) \<and>
       (t \<noteq> 0 \<and> Hour \<le> d \<and> d < 24 * Hour \<longrightarrow>
          (\<exists>N. text = showNat N @ '' hours ago'' \<and> nearest N (Hours d) \<and>
               \<bar>real N - real_of_int d / real_of_int Hour\<bar> \<le> 1 / 2 + 1 / 2 ^ 40)) \<and>
       (t \<noteq> 0 \<and> 24 * Hour \<le> d \<and> d < 30 * 24 * Hour \<longrightarrow>
          (\<exists>N. text = showNat N @ '' days ago'' \<and>
               nearest N (fdiv (Hours d) (float64_of 24)) \<and>
               \<bar>real N - real_of_int d / real_of_int (24 * Hour)\<bar> \<le> 1 / 2 + 1 / 2 ^ 40)) \<and>
       (t \<noteq> 0 \<and> 30 * 24 * Hour \<le> d \<and> d < 365 * 24 * Hour \<longrightarrow>
          (\<exists>N. text = showNat N @ '' months ago'' \<and>
               nearest N (fdiv (fdiv (Hours d) (float64_of 24)) (float64_of 30)) \<and>
               \<bar>real N - real_of_int d / real_of_int (30 * 24 * Hour)\<bar> \<le> 1 / 2 + 1 / 2 ^ 40)) \<and>
       (t \<noteq> 0 \<and> 365 * 24 * Hour \<le> d \<longrightarrow>
          (\<exists>N. text = showNat N @ '' years ago'' \<and>
               nearest N (fdiv (fdiv (Hours d) (float64_of 24)) (float64_of 365)) \<and>
               \<bar>real N - real_of_int d / real_of_int (365 * 24 * Hour)\<bar> \<le> 1 / 2 + 1 / 2 ^ 40))) \<and>
   fst (formatTime stoppedClock 0 (exampleNow - 30000000000)) = ''just now'' \<and>
   fst (formatTime stoppedClock 0 (exampleNow - 5400000000000)) = ''2 hours ago'' \<and>
   fst (formatTime stoppedClock 0 (exampleNow - 34560000000000000)) = ''1 years ago''"
proof -
  let ?d = "Sub (clk c) t"
  have m0: "0 < Minute" and mh: "Minute < Hour" and h1: "Hour < 24 * Hour"
    and h2: "24 * Hour < 30 * 24 * Hour" and h3: "30 * 24 * Hour < 365 * 24 * Hour"
    by (simp_all add: Minute_def Hour_def)
  have d63: "?d < 2 ^ 63" by (rule Sub_bounds)
  have d24: "0 < snd (fdiv (Hours ?d) (float64_of 24))"
    by (simp add: fdiv_den_pos Hours_den_pos float64_of_num_pos)
  then have d30: "0 < snd (fdiv (fdiv (Hours ?d) (float64_of 24)) (float64_of 30))"
    and d365: "0 < snd (fdiv (fdiv (Hours ?d) (float64_of 24)) (float64_of 365))"
    by (simp_all add: fdiv_den_pos float64_of_num_pos)
  have "fst (formatTime clk c t) = ''unknown''" if "t = 0"
    using that by (simp add: formatTime_unknown)
  moreover have "fst (formatTime clk c t) = ''just now''" if "t \<noteq> 0" "?d < Minute"
    using that by (simp add: formatTime_cases)
  moreover have "\<exists>N. fst (formatTime clk c t) = showNat N @ '' minutes ago'' \<and>
      nearest N (Minutes ?d) \<and>
      \<bar>real N - real_of_int ?d / real_of_int Minute\<bar> \<le> 1 / 2 + 1 / 2 ^ 40"
    if "t \<noteq> 0" "Minute \<le> ?d" "?d < Hour"
  proof -
    from fmt_f0_nearest [OF Minutes_den_pos, of ?d]
    obtain N where N: "fmt_f0 (Minutes ?d) = showNat N" "nearest N (Minutes ?d)" by blast
    from that m0 have "0 \<le> ?d" by linarith
    from minutes_exact [OF this that(3) N(2)] N that show ?thesis
      by (auto simp: formatTime_cases)
  qed
  moreover have "\<exists>N. fst (formatTime clk c t) = showNat N @ '' hours ago'' \<and>
      nearest N (Hours ?d) \<and>
      \<bar>real N - real_of_int ?d / real_of_int Hour\<bar> \<le> 1 / 2 + 1 / 2 ^ 40"
    if "t \<noteq> 0" "Hour \<le> ?d" "?d < 24 * Hour"
  proof -
    from fmt_f0_nearest [OF Hours_den_pos, of ?d]
    obtain N where N: "fmt_f0 (Hours ?d) = showNat N" "nearest N (Hours ?d)" by blast
    from that m0 mh have "0 \<le> ?d" by linarith
    from hours_exact [OF this that(3) N(2)] N that mh show ?thesis
      by (auto simp: formatTime_cases)
  qed
  moreover have "\<exists>N. fst (formatTime clk c t) = showNat N @ '' days ago'' \<and>
      nearest N (fdiv (Hours ?d) (float64_of 24)) \<and>
      \<bar>real N - real_of_int ?d / real_of_int (24 * Hour)\<bar> \<le> 1 / 2 + 1 / 2 ^ 40"
    if "t \<noteq> 0" "24 * Hour \<le> ?d" "?d < 30 * 24 * Hour"
  proof -
    from fmt_f0_nearest [OF d24]
    obtain N where N: "fmt_f0 (fdiv (Hours ?d) (float64_of 24)) = showNat N"
      "nearest N (fdiv (Hours ?d) (float64_of 24))" by blast
    from that m0 mh h1 have "0 \<le> ?d" by linarith
    from days_exact [OF this that(3) N(2)] N that mh h1 show ?thesis
      by (auto simp: formatTime_cases)
  qed
  moreover have "\<exists>N. fst (formatTime clk c t) = showNat N @ '' months ago'' \<and>
      nearest N (fdiv (fdiv (Hours ?d) (float64_of 24)) (float64_of 30)) \<and>
      \<bar>real N - real_of_int ?d / real_of_int (30 * 24 * Hour)\<bar> \<le> 1 / 2 + 1 / 2 ^ 40"
    if "t \<noteq> 0" "30 * 24 * Hour \<le> ?d" "?d < 365 * 24 * Hour"
  proof -
    from fmt_f0_nearest [OF d30]
    obtain N where N: "fmt_f0 (fdiv (fdiv (Hours ?d) (float64_of 24)) (float64_of 30)) = showNat N"
      "nearest N (fdiv (fdiv (Hours ?d) (float64_of 24)) (float64_of 30))" by blast
    from that m0 mh h1 h2 have "0 \<le> ?d" by linarith
    from months_exact [OF this that(3) N(2)] N that mh h1 h2 show ?thesis
      by (auto simp: formatTime_cases)
  qed
  moreover have "\<exists>N. fst (formatTime clk c t) = showNat N @ '' years ago'' \<and>
      nearest N (fdiv (fdiv (Hours ?d) (float64_of 24)) (float64_of 365)) \<and>
      \<bar>real N - real_of_int ?d / real_of_int (365 * 24 * Hour)\<bar> \<le> 1 / 2 + 1 / 2 ^ 40"
    if "t \<noteq> 0" "365 * 24 * Hour \<le> ?d"
  proof -
    from fmt_f0_nearest [OF d365]
    obtain N where N: "fmt_f0 (fdiv (fdiv (Hours ?d) (float64_of 24)) (float64_of 365)) = showNat N"
      "nearest N (fdiv (fdiv (Hours ?d) (float64_of 24)) (float64_of 365))" by blast
    from that m0 mh h1 h2 h3 have "0 \<le> ?d" by linarith
    from years_exact [OF this d63 N(2)] N that mh h1 h2 h3 show ?thesis
      by (auto simp: formatTime_cases)
  qed
  ultimately show ?thesis
    unfolding Let_def using formatTime_examples(1,2,5) by blast
qed

theorem relative_time_text_witness:
  "exampleNow - 5400000000000 \<noteq> 0 \<and>
   Hour \<le> Sub (stoppedClock 0) (exampleNow - 5400000000000) \<and>
   Sub (stoppedClock 0) (exampleNow - 5400000000000) < 24 * Hour \<and>
   (\<exists>N. fst (formatTime stoppedClock 0 (exampleNow - 5400000000000)) =
           showNat N @ '' hours ago'' \<and>
        nearest N (Hours (Sub (stoppedClock 0) (exampleNow - 5400000000000)))) \<and>
   fst (formatTime stoppedClock 0 0) = ''unknown''"
proof -
  have t: "exampleNow - 5400000000000 \<noteq> 0"
    and lo: "Hour \<le> Sub (stoppedClock 0) (exampleNow - 5400000000000)"
    and hi: "Sub (stoppedClock 0) (exampleNow - 5400000000000) < 24 * Hour"
    by (simp_all add: Sub_def maxDuration_def minDuration_def Hour_def exampleNow_def
        stoppedClock_def)
  from relative_time_text [of stoppedClock 0 "exampleNow - 5400000000000"] t lo hi
  have "\<exists>N. fst (formatTime stoppedClock 0 (exampleNow - 5400000000000)) =
           showNat N @ '' hours ago'' \<and>
        nearest N (Hours (Sub (stoppedClock 0) (exampleNow - 5400000000000)))"
    unfolding Let_def by blast
  moreover from relative_time_text [of stoppedClock 0 0]
  have "fst (formatTime stoppedClock 0 0) = ''unknown''"
    unfolding Let_def by blast
  ultimately show ?thesis
    using t lo hi by blast
qed

subsection \<open>C9: the grouped sections\<close>

text \<open>
  Claim C9 says that entries of equal value are printed in an order fixed by the map.
  The order in which \<open>range\<close> enumerates a map is not fixed: for the results of one and
  the same analysis, two runtimes that meet the contracts print the two extensions of the
  same count in opposite orders.
\<close>

theorem tie_order_counterexample:
  "runtime_ok stableRuntime \<and> runtime_ok reversedRuntime \<and>
   analyzeFiles insertionSort mixedFiles 8000 [(''/data'', 8000)] 30 = tiedResults \<and>
   countEntries stableRuntime tiedResults 10 = [''1 files - .go'', ''1 files - .md''] \<and>
   countEntries reversedRuntime tiedResults 10 = [''1 files - .md'', ''1 files - .go'']"
proof -
  have "runtime_ok reversedRuntime"
    using stableRuntime_ok
    by (simp add: runtime_ok_def reversedRuntime_def range_contract_rev)
  moreover have "analyzeFiles insertionSort mixedFiles 8000 [(''/data'', 8000)] 30 = tiedResults"
    by (simp add: analyzeFiles_def mixedFiles_def tiedResults_def insertionSort_def Before_def)
  ultimately show ?thesis
    by (simp add: stableRuntime_ok)
       (simp add: countEntries_def printSortedMap_take reversedRuntime_def stableRuntime_def
          tiedResults_def insertionSort_def showInt_def showNat.simps digit_char_def)
qed

text \<open>
  Claim C9, amended. Each grouped section prints the first \<open>min(topN, number of keys)\<close>
  entries of an ordering of the map's entries that is descending by value; the order
  among entries of equal value is not determined.
\<close>

theorem grouped_sections:
  assumes "runtime_ok rt"
  shows "(\<exists>ys. mset ys = mset (FilesByExtension r) \<and>
            sorted_wrt (\<lambda>a b. snd b \<le> snd a) ys \<and>
            countEntries rt r topN =
              map (\<lambda>kv. showInt (snd kv) @ '' files - '' @ fst kv) (take (nat topN) ys) \<and>
            length (countEntries rt r topN) = min (nat topN) (length (FilesByExtension r))) \<and>
         (\<exists>ys. mset ys = mset (SizeByExtension r) \<and>
            sorted_wrt (\<lambda>a b. sint (snd b) \<le> sint (snd a)) ys \<and>
            extSizeEntries rt r topN =
              map (\<lambda>kv. formatSize (snd kv) @ '' - '' @ fst kv) (take (nat topN) ys) \<and>
            length (extSizeEntries rt r topN) = min (nat topN) (length (SizeByExtension r))) \<and>
         (\<exists>ys. mset ys = mset (DirectorySizes r) \<and>
            sorted_wrt (\<lambda>a b. sint (snd b) \<le> sint (snd a)) ys \<and>
            dirSizeEntries rt r topN =
              map (\<lambda>kv. formatSize (snd kv) @ '' - '' @ fst kv) (take (nat topN) ys) \<and>
            length (dirSizeEntries rt r topN) = min (nat topN) (length (DirectorySizes r)))"
proof -
  from assms have rc: "range_contract (rt_rangeCounts rt)"
    and sc: "sort_Slice_contract (rt_sortCounts rt)"
    and rs: "range_contract (rt_rangeSizes rt)"
    and ss: "sort_Slice_contract (rt_sortSizes rt)"
    by (simp_all add: runtime_ok_def)
  have counts: "\<exists>ys. mset ys = mset (FilesByExtension r) \<and>
            sorted_wrt (\<lambda>a b. snd b \<le> snd a) ys \<and>
            countEntries rt r topN =
              map (\<lambda>kv. showInt (snd kv) @ '' files - '' @ fst kv) (take (nat topN) ys) \<and>
            length (countEntries rt r topN) = min (nat topN) (length (FilesByExtension r))"
    using printSortedMap_sorted [OF rc sc swo_count, of "FilesByExtension r" topN
        "\<lambda>v. showInt v @ '' files''"]
    by (simp add: countEntries_def not_less)
  have sizes: "\<exists>ys. mset ys = mset m \<and>
            sorted_wrt (\<lambda>a b. sint (snd b) \<le> sint (snd a)) ys \<and>
            printSortedMap (rt_rangeSizes rt) (rt_sortSizes rt) m topN (\<lambda>a b. b <s a) formatSize =
              map (\<lambda>kv. formatSize (snd kv) @ '' - '' @ fst kv) (take (nat topN) ys) \<and>
            length (printSortedMap (rt_rangeSizes rt) (rt_sortSizes rt) m topN
                      (\<lambda>a b. b <s a) formatSize) = min (nat topN) (length m)" for m
    using printSortedMap_sorted [OF rs ss swo_bytes, of m topN formatSize]
    by (simp add: word_sless_alt not_less)
  from counts sizes [of "SizeByExtension r"] sizes [of "DirectorySizes r"]
  show ?thesis
    unfolding extSizeEntries_def dirSizeEntries_def by (intro conjI)
qed

theorem grouped_sections_witness:
  "runtime_ok stableRuntime \<and>
   countEntries stableRuntime exampleResults 10 = [''2 files - .txt''] \<and>
   length (countEntries stableRuntime exampleResults 10) =
     min (nat 10) (length (FilesByExtension exampleResults))"
  using grouped_sections [OF stableRuntime_ok, of exampleResults 10] stableRuntime_ok
  by (simp add: exampleResults_def)
     (simp add: countEntries_def printSortedMap_take stableRuntime_def
        exampleResults_def insertionSort_def showInt_def showNat.simps digit_char_def)

subsection \<open>C10: a limit of zero or less\<close>

text \<open>
  Claim C10. When \<open>topN \<le> 0\<close> the largest-files section and the three grouped sections
  print no entry, but the unused-files section still prints exactly one entry, the first
  record last used before the cutoff, whenever there is such a record: the loop compares
  the count with \<open>topN\<close> only after it has printed.
\<close>

theorem nonpositive_limit:
  assumes "topN \<le> 0"
  shows "fst (largestEntries rt results topN c) = [] \<and>
         countEntries rt results topN = [] \<and>
         extSizeEntries rt results topN = [] \<and>
         dirSizeEntries rt results topN = [] \<and>
         (let cutoff = rt_addDays rt (rt_clock rt c) (- daysUnused);
              qualifying = filter (\<lambda>f. LastUsed f < cutoff) (OldestFiles results)
          in qualifying \<noteq> [] \<longrightarrow>
             unusedEntries rt results topN daysUnused c =
               fileLines (rt_clock rt) [hd qualifying] (Suc c) \<and>
             length (fst (unusedEntries rt results topN daysUnused c)) = 1)"
proof -
  from assms have n: "nat topN = 0" and m: "max 1 (nat topN) = 1" by simp_all
  have "take 1 q = [hd q]" if "q \<noteq> []" for q :: "FileInfo list"
    using that by (cases q) simp_all
  then show ?thesis
    by (simp add: largestEntries_spec countEntries_def extSizeEntries_def dirSizeEntries_def
        printSortedMap_take unusedEntries_spec n m Let_def length_fileLines)
       (simp add: fileLines_def)
qed

theorem nonpositive_limit_witness:
  "(0::int) \<le> 0 \<and>
   fst (largestEntries stableRuntime exampleResults 0 0) = [] \<and>
   countEntries stableRuntime exampleResults 0 = [] \<and>
   unusedEntries stableRuntime exampleResults 0 30 0 =
     ([''4.9 KiB - /data/a.TXT (Last used: 1 months ago)''], 2)"
proof -
  have clk: "rt_clock stableRuntime = (\<lambda>c. 63900000000000000000 + int c)"
    "rt_addDays stableRuntime = utcAddDays"
    by (simp_all add: stableRuntime_def)
  have line: "fileLine (\<lambda>c. 63900000000000000000 + int c) (exampleFiles ! 0) 1 =
              (''4.9 KiB - /data/a.TXT (Last used: 1 months ago)'', 2)"
    by (simp add: exampleFiles_def fileLine_def formatTime_def formatSize_def IsZero_def
        Sub_def maxDuration_def minDuration_def Minute_def Hour_def Hours_def
        sizeLoop.simps fmt_f1_def fmt_f0_def fdiv_def fadd_def float64_of_def fl_def
        shift_up.simps shift_down.simps rhe_div_def showNat.simps digit_char_def Let_def)
  have "(0::int) \<le> 0" by simp
  from nonpositive_limit [OF this, where rt = stableRuntime and results = exampleResults
      and c = 0 and daysUnused = 30] line
  show ?thesis
    by (simp add: clk utcAddDays_def exampleResults_def exampleFiles_def fileLines_def Let_def)
qed

end
